theory Spec2Isabelle
  imports Main
begin

section \<open>Values on the wire\<close>

text \<open>
  The messages of \<^verbatim>\<open>ipcRemoteCom.ts\<close> are JSON texts. A parsed message is a value
  of type \<open>json\<close>; an object is the list of its own properties, in the order in which
  they were added (the program never enumerates them). Numbers are the
  integers whose magnitude is at most \<open>2^53\<close> (the integers a JavaScript number holds
  exactly), strings are lists of 8-bit characters. A property that is absent reads as
  \<^verbatim>\<open>undefined\<close>, which is \<open>None\<close> of type \<open>json option\<close>.
\<close>

datatype json =
    JNull
  | JBool bool
  | JNum int
  | JStr string
  | JArr "json list"
  | JObj "(string \<times> json) list"

datatype error =
    SyntaxError      \<comment> \<open>thrown by \<^verbatim>\<open>marshalling.parse\<close> on a text that is not JSON\<close>
  | TypeError        \<comment> \<open>reading a property of \<^verbatim>\<open>null\<close>\<close>
  | NoBigHandler     \<comment> \<open>\<^verbatim>\<open>new Error('got message before big handler attached!')\<close>\<close>
  | Unmodelled       \<comment> \<open>a text outside the modelled fragment (fractions, exponents, wide characters)\<close>

subsection \<open>\<^verbatim>\<open>String(n)\<close> and property keys\<close>

definition digit_char :: "nat \<Rightarrow> char" where
  "digit_char d = char_of (48 + d)"

function string_of_nat :: "nat \<Rightarrow> string" where
  "string_of_nat n =
     (if n < 10 then [digit_char n]
      else string_of_nat (n div 10) @ [digit_char (n mod 10)])"
  by pat_completeness auto
termination
  by (relation "measure id") auto

declare string_of_nat.simps [simp del]

definition string_of_int :: "int \<Rightarrow> string" where
  "string_of_int i =
     (if i < 0 then CHR ''-'' # string_of_nat (nat (- i)) else string_of_nat (nat i))"

fun join_commas :: "string list \<Rightarrow> string" where
  "join_commas [] = []"
| "join_commas [s] = s"
| "join_commas (s # t # ts) = s @ CHR '','' # join_commas (t # ts)"

text \<open>
  \<open>to_string\<close> is JavaScript's \<^verbatim>\<open>ToString\<close>, used when a value is a property key
  (\<^verbatim>\<open>obj[msg.seq]\<close>, \<^verbatim>\<open>hasOwnProperty(msg.seq)\<close>) or stands in a template
  (\<^verbatim>\<open>${req}\<close>). An array is the join of its elements, where \<^verbatim>\<open>null\<close> contributes the
  empty string. An object is converted by its \<^verbatim>\<open>toString\<close> method: the one of
  \<^verbatim>\<open>Object.prototype\<close> answers \<^verbatim>\<open>[object Object]\<close>; an own member \<^verbatim>\<open>toString\<close> of a
  parsed object hides it and is no function, \<^verbatim>\<open>valueOf\<close> gives no primitive either, and
  the conversion throws a \<^verbatim>\<open>TypeError\<close>.
\<close>

fun to_string :: "json \<Rightarrow> error + string"
  and to_strings :: "json list \<Rightarrow> error + string list" where
  "to_string JNull = Inr ''null''"
| "to_string (JBool b) = Inr (if b then ''true'' else ''false'')"
| "to_string (JNum i) = Inr (string_of_int i)"
| "to_string (JStr s) = Inr s"
| "to_string (JArr xs) =
     (case to_strings xs of Inl e \<Rightarrow> Inl e | Inr ss \<Rightarrow> Inr (join_commas ss))"
| "to_string (JObj kvs) =
     (if map_of kvs ''toString'' = None then Inr ''[object Object]'' else Inl TypeError)"
| "to_strings [] = Inr []"
| "to_strings (x # xs) =
     (case (if x = JNull then Inr [] else to_string x) of
        Inl e \<Rightarrow> Inl e
      | Inr s \<Rightarrow> (case to_strings xs of Inl e \<Rightarrow> Inl e | Inr ss \<Rightarrow> Inr (s # ss)))"

definition to_key :: "json option \<Rightarrow> error + string" where
  "to_key v = (case v of None \<Rightarrow> Inr ''undefined'' | Some j \<Rightarrow> to_string j)"

text \<open>The truth value of a condition \<^verbatim>\<open>if (v)\<close>.\<close>

fun truthy_json :: "json \<Rightarrow> bool" where
  "truthy_json JNull = False"
| "truthy_json (JBool b) = b"
| "truthy_json (JNum i) = (i \<noteq> 0)"
| "truthy_json (JStr s) = (s \<noteq> [])"
| "truthy_json (JArr xs) = True"
| "truthy_json (JObj kvs) = True"

definition truthy :: "json option \<Rightarrow> bool" where
  "truthy v = (case v of None \<Rightarrow> False | Some j \<Rightarrow> truthy_json j)"

subsection \<open>The value serializer\<close>

text \<open>
  Modelled from the spec: \<^verbatim>\<open>marshalling.parse\<close> and \<^verbatim>\<open>marshalling.stringify\<close>
  (\<^verbatim>\<open>vs/base/common/marshalling\<close>) are imported by the program and are not among its
  sources. The spec names them the value serializer (\<^verbatim>\<open>deserialize(text) -> value\<close>,
  \<^verbatim>\<open>serialize(value) -> text\<close>) and shows the wire texts, which are JSON. \<open>parse\<close>
  and \<open>stringify\<close> below are a JSON reader and writer over \<open>json\<close>. \<open>parse\<close> answers
  \<open>Inl SyntaxError\<close> where the text is not JSON, and \<open>Inl Unmodelled\<close> where the
  text has a number with a fraction or an exponent, an integer beyond \<open>2^53\<close>, or an
  escape for a character beyond 255.
\<close>

definition code :: "char \<Rightarrow> nat" where
  "code c = of_char c"

definition is_digit :: "char \<Rightarrow> bool" where
  "is_digit c = (48 \<le> code c \<and> code c \<le> 57)"

definition int_of_digits :: "string \<Rightarrow> int" where
  "int_of_digits ds = foldl (\<lambda>a c. 10 * a + (int (code c) - 48)) 0 ds"

definition hex_val :: "char \<Rightarrow> nat option" where
  "hex_val c =
     (if is_digit c then Some (code c - 48)
      else if 97 \<le> code c \<and> code c \<le> 102 then Some (code c - 87)
      else if 65 \<le> code c \<and> code c \<le> 70 then Some (code c - 55)
      else None)"

definition hex4 :: "char \<Rightarrow> char \<Rightarrow> char \<Rightarrow> char \<Rightarrow> nat option" where
  "hex4 a b c d =
     (case (hex_val a, hex_val b, hex_val c, hex_val d) of
        (Some w, Some x, Some y, Some z) \<Rightarrow> Some (((w * 16 + x) * 16 + y) * 16 + z)
      | _ \<Rightarrow> None)"

definition unescape :: "char \<Rightarrow> char option" where
  "unescape e =
     (if e = CHR 0x22 then Some (CHR 0x22)
      else if e = CHR 0x5C then Some (CHR 0x5C)
      else if e = CHR ''/'' then Some (CHR ''/'')
      else if e = CHR ''b'' then Some (CHR 0x08)
      else if e = CHR ''f'' then Some (CHR 0x0C)
      else if e = CHR ''n'' then Some (CHR 0x0A)
      else if e = CHR ''r'' then Some (CHR 0x0D)
      else if e = CHR ''t'' then Some (CHR 0x09)
      else None)"

datatype tok =
  TLBrace | TRBrace | TLBrack | TRBrack | TComma | TColon
  | TStr string | TNum int | TTrue | TFalse | TNull

text \<open>What follows a backslash inside a string literal.\<close>

definition lex_escape :: "string \<Rightarrow> error + (char \<times> string)" where
  "lex_escape cs =
     (case cs of
        [] \<Rightarrow> Inl SyntaxError
      | e # cs' \<Rightarrow>
          if e = CHR ''u'' then
            (case cs' of
               h1 # h2 # h3 # h4 # cs'' \<Rightarrow>
                 (case hex4 h1 h2 h3 h4 of
                    None \<Rightarrow> Inl SyntaxError
                  | Some n \<Rightarrow> if n < 256 then Inr (char_of n, cs'') else Inl Unmodelled)
             | _ \<Rightarrow> Inl SyntaxError)
          else
            (case unescape e of
               None \<Rightarrow> Inl SyntaxError
             | Some u \<Rightarrow> Inr (u, cs')))"

lemma lex_escape_shorter:
  assumes "lex_escape cs = Inr (u, rest)"
  shows "length rest < length cs"
proof (cases cs)
  case Nil
  with assms show ?thesis by (simp add: lex_escape_def)
next
  case (Cons e cs')
  show ?thesis
  proof (cases "e = CHR ''u''")
    case False
    with assms Cons show ?thesis
      by (auto simp: lex_escape_def split: option.splits)
  next
    case True
    with assms Cons obtain h1 h2 h3 h4 cs'' where "cs' = h1 # h2 # h3 # h4 # cs''"
      by (auto simp: lex_escape_def split: list.splits)
    with assms Cons True show ?thesis
      by (auto simp: lex_escape_def split: option.splits if_splits)
  qed
qed

text \<open>The body of a string literal, after its opening quote; \<open>acc\<close> is reversed.\<close>

function lex_string :: "string \<Rightarrow> string \<Rightarrow> error + (string \<times> string)" where
  "lex_string [] acc = Inl SyntaxError"
| "lex_string (c # cs) acc =
     (if c = CHR 0x22 then Inr (rev acc, cs)
      else if c = CHR 0x5C then
        (case lex_escape cs of
           Inl e \<Rightarrow> Inl e
         | Inr (u, rest) \<Rightarrow> lex_string rest (u # acc))
      else if code c < 32 then Inl SyntaxError
      else lex_string cs (c # acc))"
  by pat_completeness auto
termination
  by (relation "measure (\<lambda>(cs, acc). length cs)")
     (auto dest: lex_escape_shorter)

declare lex_string.simps(2) [simp del]

lemma lex_string_shorter:
  "lex_string cs acc = Inr (s, rest) \<Longrightarrow> length rest < length cs"
proof (induction cs acc rule: lex_string.induct)
  case (1 acc)
  then show ?case by simp
next
  case (2 c cs acc)
  show ?case
  proof (cases "c = CHR 0x22")
    case True
    with 2(3) show ?thesis by (simp add: lex_string.simps(2))
  next
    case nq: False
    show ?thesis
    proof (cases "c = CHR 0x5C")
      case True
      with nq 2(3) obtain u r where e: "lex_escape cs = Inr (u, r)"
        and l: "lex_string r (u # acc) = Inr (s, rest)"
        by (auto simp: lex_string.simps(2) split: sum.splits)
      from 2(1)[OF nq True e refl l] lex_escape_shorter[OF e] show ?thesis by simp
    next
      case False
      with nq 2(3) have c: "\<not> code c < 32" and l: "lex_string cs (c # acc) = Inr (s, rest)"
        by (auto simp: lex_string.simps(2) split: if_splits)
      from 2(2)[OF nq False c l] show ?thesis by simp
    qed
  qed
qed

definition lex_number :: "string \<Rightarrow> error + (int \<times> string)" where
  "lex_number cs =
     (let neg = (case cs of [] \<Rightarrow> False | c # _ \<Rightarrow> c = CHR ''-'');
          body = (if neg then tl cs else cs);
          ds = takeWhile is_digit body;
          rest = dropWhile is_digit body
      in if ds = [] then Inl SyntaxError
         else if hd ds = CHR ''0'' \<and> tl ds \<noteq> [] then Inl SyntaxError
         else if (case rest of [] \<Rightarrow> False
                  | r # _ \<Rightarrow> r = CHR ''.'' \<or> r = CHR ''e'' \<or> r = CHR ''E'')
           then Inl Unmodelled
         else if 9007199254740992 < int_of_digits ds then Inl Unmodelled
         else Inr (if neg then - int_of_digits ds else int_of_digits ds, rest))"

lemma lex_number_shorter:
  assumes "lex_number cs = Inr (i, rest)"
  shows "length rest < length cs"
proof -
  define body where "body = (if (case cs of [] \<Rightarrow> False | c # _ \<Rightarrow> c = CHR ''-'') then tl cs else cs)"
  from assms have ne: "takeWhile is_digit body \<noteq> []" and r: "rest = dropWhile is_digit body"
    by (auto simp: lex_number_def Let_def body_def split: if_splits)
  have "length (takeWhile is_digit body) + length (dropWhile is_digit body) = length body"
    by (metis length_append takeWhile_dropWhile_id)
  with ne r have "length rest < length body" by (cases "takeWhile is_digit body") auto
  moreover have "length body \<le> length cs" by (simp add: body_def)
  ultimately show ?thesis by simp
qed

definition tok_cons :: "tok \<Rightarrow> error + tok list \<Rightarrow> error + tok list" where
  "tok_cons t r = (case r of Inl e \<Rightarrow> Inl e | Inr ts \<Rightarrow> Inr (t # ts))"

definition is_space :: "char \<Rightarrow> bool" where
  "is_space c = (c = CHR '' '' \<or> c = CHR 0x09 \<or> c = CHR 0x0A \<or> c = CHR 0x0D)"

function lex :: "string \<Rightarrow> error + tok list" where
  "lex [] = Inr []"
| "lex (c # cs) =
     (if is_space c then lex cs
      else if c = CHR ''{'' then tok_cons TLBrace (lex cs)
      else if c = CHR ''}'' then tok_cons TRBrace (lex cs)
      else if c = CHR ''['' then tok_cons TLBrack (lex cs)
      else if c = CHR '']'' then tok_cons TRBrack (lex cs)
      else if c = CHR '','' then tok_cons TComma (lex cs)
      else if c = CHR '':'' then tok_cons TColon (lex cs)
      else if c = CHR 0x22 then
        (case lex_string cs [] of
           Inl e \<Rightarrow> Inl e
         | Inr (s, rest) \<Rightarrow> tok_cons (TStr s) (lex rest))
      else if c = CHR ''-'' \<or> is_digit c then
        (case lex_number (c # cs) of
           Inl e \<Rightarrow> Inl e
         | Inr (i, rest) \<Rightarrow> tok_cons (TNum i) (lex rest))
      else if take 4 (c # cs) = ''true'' then tok_cons TTrue (lex (drop 3 cs))
      else if take 5 (c # cs) = ''false'' then tok_cons TFalse (lex (drop 4 cs))
      else if take 4 (c # cs) = ''null'' then tok_cons TNull (lex (drop 3 cs))
      else Inl SyntaxError)"
  by pat_completeness auto
termination
proof (relation "measure length", goal_cases)
  case 1
  show ?case by simp
next
  case (9 c cs x s rest)
  then show ?case using lex_string_shorter[of cs "[]" s rest] by simp
next
  case (10 c cs x i rest)
  then show ?case using lex_number_shorter[of "c # cs" i rest] by simp
qed simp_all

declare lex.simps(2) [simp del]

subsubsection \<open>Parsing the tokens\<close>

text \<open>
  The parser is a stack machine over the tokens. A frame is an array or an object under
  construction; a repeated key overwrites the earlier value in place.
\<close>

datatype frame =
    FArr "json list"
  | FObj "(string \<times> json) list"
  | FKey "(string \<times> json) list" string

datatype mode =
    MValue | MArrFirst | MArrMore | MObjFirst | MObjKey | MColon | MObjMore | MDone json

fun put :: "string \<Rightarrow> json \<Rightarrow> (string \<times> json) list \<Rightarrow> (string \<times> json) list" where
  "put k v [] = [(k, v)]"
| "put k v ((k', v') # kvs) = (if k = k' then (k, v) # kvs else (k', v') # put k v kvs)"

fun feed :: "json \<Rightarrow> frame list \<Rightarrow> (mode \<times> frame list) option" where
  "feed v [] = Some (MDone v, [])"
| "feed v (FArr es # st) = Some (MArrMore, FArr (es @ [v]) # st)"
| "feed v (FKey kvs k # st) = Some (MObjMore, FObj (put k v kvs) # st)"
| "feed v (FObj kvs # st) = None"

fun start :: "tok \<Rightarrow> frame list \<Rightarrow> (mode \<times> frame list) option" where
  "start TNull st = feed JNull st"
| "start TTrue st = feed (JBool True) st"
| "start TFalse st = feed (JBool False) st"
| "start (TNum i) st = feed (JNum i) st"
| "start (TStr s) st = feed (JStr s) st"
| "start TLBrack st = Some (MArrFirst, FArr [] # st)"
| "start TLBrace st = Some (MObjFirst, FObj [] # st)"
| "start t st = None"

fun step :: "tok \<Rightarrow> mode \<times> frame list \<Rightarrow> (mode \<times> frame list) option" where
  "step t (MValue, st) = start t st"
| "step t (MArrFirst, FArr es # st) =
     (if t = TRBrack then feed (JArr es) st else start t (FArr es # st))"
| "step t (MArrMore, FArr es # st) =
     (if t = TComma then Some (MValue, FArr es # st)
      else if t = TRBrack then feed (JArr es) st
      else None)"
| "step t (MObjFirst, FObj kvs # st) =
     (case t of
        TStr k \<Rightarrow> Some (MColon, FKey kvs k # st)
      | TRBrace \<Rightarrow> feed (JObj kvs) st
      | _ \<Rightarrow> None)"
| "step t (MObjKey, FObj kvs # st) =
     (case t of TStr k \<Rightarrow> Some (MColon, FKey kvs k # st) | _ \<Rightarrow> None)"
| "step t (MColon, FKey kvs k # st) =
     (if t = TColon then Some (MValue, FKey kvs k # st) else None)"
| "step t (MObjMore, FObj kvs # st) =
     (case t of
        TComma \<Rightarrow> Some (MObjKey, FObj kvs # st)
      | TRBrace \<Rightarrow> feed (JObj kvs) st
      | _ \<Rightarrow> None)"
| "step t c = None"

fun run :: "tok list \<Rightarrow> mode \<times> frame list \<Rightarrow> (mode \<times> frame list) option" where
  "run [] c = Some c"
| "run (t # ts) c = (case step t c of None \<Rightarrow> None | Some c' \<Rightarrow> run ts c')"

definition parse :: "string \<Rightarrow> error + json" where
  "parse s =
     (case lex s of
        Inl e \<Rightarrow> Inl e
      | Inr ts \<Rightarrow>
          (case run ts (MValue, []) of
             Some (MDone v, []) \<Rightarrow> Inr v
           | _ \<Rightarrow> Inl SyntaxError))"

subsubsection \<open>Writing a value\<close>

definition hex_digit :: "nat \<Rightarrow> char" where
  "hex_digit d = (if d < 10 then char_of (48 + d) else char_of (87 + d))"

definition escape_char :: "char \<Rightarrow> string" where
  "escape_char c =
     (if c = CHR 0x22 then [CHR 0x5C, CHR 0x22]
      else if c = CHR 0x5C then [CHR 0x5C, CHR 0x5C]
      else if c = CHR 0x08 then [CHR 0x5C, CHR ''b'']
      else if c = CHR 0x0C then [CHR 0x5C, CHR ''f'']
      else if c = CHR 0x0A then [CHR 0x5C, CHR ''n'']
      else if c = CHR 0x0D then [CHR 0x5C, CHR ''r'']
      else if c = CHR 0x09 then [CHR 0x5C, CHR ''t'']
      else if code c < 32 then
        [CHR 0x5C, CHR ''u'', CHR ''0'', CHR ''0'', hex_digit (code c div 16), hex_digit (code c mod 16)]
      else [c])"

definition quote :: "string \<Rightarrow> string" where
  "quote s = CHR 0x22 # concat (map escape_char s) @ [CHR 0x22]"

fun stringify :: "json \<Rightarrow> string"
  and stringify_elems :: "json list \<Rightarrow> string"
  and stringify_members :: "(string \<times> json) list \<Rightarrow> string" where
  "stringify JNull = ''null''"
| "stringify (JBool b) = (if b then ''true'' else ''false'')"
| "stringify (JNum i) = string_of_int i"
| "stringify (JStr s) = quote s"
| "stringify (JArr xs) = CHR ''['' # stringify_elems xs @ '']''"
| "stringify (JObj kvs) = CHR ''{'' # stringify_members kvs @ ''}''"
| "stringify_elems [] = []"
| "stringify_elems [x] = stringify x"
| "stringify_elems (x # y # ys) = stringify x @ CHR '','' # stringify_elems (y # ys)"
| "stringify_members [] = []"
| "stringify_members [(k, v)] = quote k @ CHR '':'' # stringify v"
| "stringify_members ((k, v) # m # ms) =
     quote k @ CHR '':'' # stringify v @ CHR '','' # stringify_members (m # ms)"

section \<open>The program\<close>

subsection \<open>\<^verbatim>\<open>MessageFactory\<close>\<close>

text \<open>
  A JavaScript value that is resolved, thrown or logged: \<^verbatim>\<open>undefined\<close>, a JSON value,
  or an \<^verbatim>\<open>Error\<close> object with its \<^verbatim>\<open>name\<close>, \<^verbatim>\<open>message\<close> and \<^verbatim>\<open>stack\<close>.
\<close>

datatype val =
    VUndefined
  | VJson json
  | VError "json option" "json option" "json option"

definition of_prop :: "json option \<Rightarrow> val" where
  "of_prop p = (case p of None \<Rightarrow> VUndefined | Some j \<Rightarrow> VJson j)"

definition opt_member :: "string \<Rightarrow> json option \<Rightarrow> (string \<times> json) list" where
  "opt_member k p = (case p of None \<Rightarrow> [] | Some j \<Rightarrow> [(k, j)])"

text \<open>
  Modelled from the spec: \<^verbatim>\<open>errors.transformErrorForSerialization\<close>
  (\<^verbatim>\<open>vs/base/common/errors\<close>) is not among the sources. The spec's
  \<^verbatim>\<open>transformErrorForWire(error) -> value-with-marker\<close> keeps the name, message
  and stack of an error object beside a boolean marker, and leaves any other value as it
  is. A property that is \<^verbatim>\<open>undefined\<close> is not written by the serializer.
\<close>

definition transformErrorForSerialization :: "val \<Rightarrow> json" where
  "transformErrorForSerialization e =
     (case e of
        VError n m st \<Rightarrow>
          JObj ((''$isError'', JBool True) # opt_member ''name'' n @ opt_member ''message'' m
                @ opt_member ''stack'' st)
      | VJson j \<Rightarrow> j
      | VUndefined \<Rightarrow> JNull)"

definition MessageFactory_cancel :: "string \<Rightarrow> string" where
  \<open>MessageFactory_cancel req = ''{"cancel":"'' @ req @ ''"}''\<close>

definition MessageFactory_request :: "string \<Rightarrow> string \<Rightarrow> string \<Rightarrow> json list \<Rightarrow> string" where
  \<open>MessageFactory_request req rpcId method args =
     ''{"req":"'' @ req @ ''","rpcId":"'' @ rpcId @ ''","method":"'' @ method
       @ ''","args":'' @ stringify (JArr args) @ ''}''\<close>

definition MessageFactory_replyOK :: "string \<Rightarrow> json option \<Rightarrow> string" where
  \<open>MessageFactory_replyOK req res =
     (case res of
        None \<Rightarrow> ''{"seq":"'' @ req @ ''"}''
      | Some r \<Rightarrow> ''{"seq":"'' @ req @ ''","res":'' @ stringify r @ ''}'')\<close>

definition MessageFactory_replyErr :: "string \<Rightarrow> val \<Rightarrow> string" where
  \<open>MessageFactory_replyErr req err =
     (if err = VUndefined then ''{"seq":"'' @ req @ ''","err":null}''
      else ''{"seq":"'' @ req @ ''","err":''
             @ stringify (transformErrorForSerialization err) @ ''}'')\<close>

subsection \<open>The state of one \<^verbatim>\<open>RPCManager\<close> and its surroundings\<close>

text \<open>
  What \<^verbatim>\<open>IManyHandler.handle\<close> does with a request: it returns a value (possibly
  \<^verbatim>\<open>undefined\<close>), throws, or returns a promise that settles later.
\<close>

datatype hresult = Returns "json option" | Throws val | Later

type_synonym handler = "json option \<Rightarrow> json option \<Rightarrow> json option \<Rightarrow> hresult"

text \<open>
  What a continuation attached to the result of a call may do with the manager: the
  public interface (\<^verbatim>\<open>callOnRemote\<close>, \<^verbatim>\<open>setManyHandler\<close>) and the cancellation of a
  result it holds.
\<close>

datatype action =
    CallOnRemote string string "json list"
  | CancelCall nat
  | SetManyHandler "handler option"

datatype resolution = Pending | ResolvedOk val | ResolvedErr val

text \<open>
  A \<^verbatim>\<open>LazyPromise\<close>, the result of one outbound call. \<open>onCancel_req\<close> is the \<^verbatim>\<open>req\<close>
  that the cancel action of lines 110-112 has captured. A continuation is a pair: what
  runs on success and what runs on failure.
\<close>

record lazyPromise =
  onCancel_req :: string
  resolution :: resolution
  cancelRequested :: bool
  continuations :: "(action list \<times> action list) list"

text \<open>
  The promise of one handler invocation (\<^verbatim>\<open>_invokeHandler\<close>). Its two callbacks of
  lines 91-97 have captured \<^verbatim>\<open>req\<close>; \<open>inv_key\<close> is the key that line 89 has converted
  this \<^verbatim>\<open>req\<close> to, which is what lines 92, 93, 95 and 96 convert it to again.
\<close>

record invocation =
  inv_key :: string
  inv_settled :: bool
  inv_cancels :: nat

datatype task = ReceiveOneMessageBound | SendAccumulatedBound

datatype logline = Warn string | LogError "json option"

text \<open>
  The fields of \<^verbatim>\<open>RPCManager\<close> and of its \<^verbatim>\<open>RPCMultiplexer\<close>, and what surrounds them:
  the objects the two maps refer to (by their index in \<open>lazyPromises\<close> and
  \<open>invocations\<close>), the queue of \<^verbatim>\<open>process.nextTick\<close>, the batches handed to
  \<^verbatim>\<open>protocol.send\<close>, the console, the arguments of the calls of \<^verbatim>\<open>_onMessage\<close>, and the
  exceptions that left a tick.
\<close>

record state =
  bigHandler :: "handler option"
  lastMessageId :: nat
  invokedHandlers :: "string \<rightharpoonup> nat"
  pendingRPCReplies :: "string \<rightharpoonup> nat"
  messagesToSend :: "string list"
  messagesToReceive :: "string list"
  lazyPromises :: "lazyPromise list"
  invocations :: "invocation list"
  nextTick :: "task list"
  sent :: "string list list"
  console :: "logline list"
  delivered :: "string option list"
  uncaught :: "error list"

text \<open>The constructors of lines 34-40 and 141-158.\<close>

definition new_RPCManager :: state where
  "new_RPCManager =
     \<lparr> bigHandler = None, lastMessageId = 0, invokedHandlers = Map.empty,
       pendingRPCReplies = Map.empty, messagesToSend = [], messagesToReceive = [],
       lazyPromises = [], invocations = [], nextTick = [], sent = [], console = [],
       delivered = [], uncaught = [] \<rparr>"

subsection \<open>\<^verbatim>\<open>RPCMultiplexer\<close>: sending\<close>

definition RPCMultiplexer_send :: "string \<Rightarrow> state \<Rightarrow> state" where
  "RPCMultiplexer_send msg s =
     s\<lparr> nextTick :=
          (if messagesToSend s = [] then nextTick s @ [SendAccumulatedBound] else nextTick s),
        messagesToSend := messagesToSend s @ [msg] \<rparr>"

definition RPCMultiplexer_sendAccumulated :: "state \<Rightarrow> state" where
  "RPCMultiplexer_sendAccumulated s =
     s\<lparr> messagesToSend := [], sent := sent s @ [messagesToSend s] \<rparr>"

subsection \<open>\<^verbatim>\<open>RPCManager\<close>: the public interface\<close>

text \<open>
  \<^verbatim>\<open>++this._lastMessageId\<close> on a JavaScript number. The counter starts at 0 and nothing
  else writes it, so it is an integer of \<open>0..2^53\<close>; there \<^verbatim>\<open>n + 1\<close> is exact below
  \<open>2^53\<close>, and \<open>2^53 + 1\<close> rounds back to \<open>2^53\<close>.
\<close>

definition js_increment :: "nat \<Rightarrow> nat" where
  "js_increment n = (if n < 9007199254740992 then n + 1 else n)"

definition callOnRemote :: "string \<Rightarrow> string \<Rightarrow> json list \<Rightarrow> state \<Rightarrow> nat \<times> state" where
  "callOnRemote proxyId path args s =
     (let n = js_increment (lastMessageId s);
          req = string_of_nat n;
          result = length (lazyPromises s);
          s1 = s\<lparr> lastMessageId := n,
                  lazyPromises := lazyPromises s @
                    [\<lparr> onCancel_req = req, resolution = Pending, cancelRequested = False,
                       continuations = [] \<rparr>],
                  pendingRPCReplies := (pendingRPCReplies s)(req \<mapsto> result) \<rparr>
      in (result, RPCMultiplexer_send (MessageFactory_request req proxyId path args) s1))"

definition setManyHandler :: "handler option \<Rightarrow> state \<Rightarrow> state" where
  "setManyHandler h s = s\<lparr> bigHandler := h \<rparr>"

subsection \<open>\<^verbatim>\<open>LazyPromise\<close>\<close>

text \<open>
  Modelled from the spec: \<^verbatim>\<open>LazyPromise\<close>
  (\<^verbatim>\<open>vs/workbench/services/extensions/node/lazyPromise\<close>) is not among the sources. The
  spec's Deferred Result is pending, resolved-ok or resolved-error, with a flag for a
  requested cancellation. \<^verbatim>\<open>cancel()\<close> on a pending result that has not been asked to
  cancel runs the cancel action (line 111: it sends the Cancel message) and sets the
  flag; it forces no terminal state. \<^verbatim>\<open>resolveOk\<close> and \<^verbatim>\<open>resolveErr\<close> move a pending
  result to its terminal state and deliver it to the attached continuations, at once;
  on a terminal result they do nothing. A continuation attached to a terminal result
  runs at once. An index that names no object changes nothing.
\<close>

definition LazyPromise_cancel :: "nat \<Rightarrow> state \<Rightarrow> state" where
  "LazyPromise_cancel a s =
     (if a < length (lazyPromises s) then
        (let p = lazyPromises s ! a in
         if resolution p = Pending \<and> \<not> cancelRequested p then
           RPCMultiplexer_send (MessageFactory_cancel (onCancel_req p))
             (s\<lparr> lazyPromises := (lazyPromises s)[a := p\<lparr> cancelRequested := True \<rparr>] \<rparr>)
         else s)
      else s)"

fun run_action :: "action \<Rightarrow> state \<Rightarrow> state" where
  "run_action (CallOnRemote proxyId path args) s = snd (callOnRemote proxyId path args s)"
| "run_action (CancelCall a) s = LazyPromise_cancel a s"
| "run_action (SetManyHandler h) s = setManyHandler h s"

definition run_script :: "action list \<Rightarrow> state \<Rightarrow> state" where
  "run_script acts s = foldl (\<lambda>s' a. run_action a s') s acts"

definition LazyPromise_resolveOk :: "nat \<Rightarrow> val \<Rightarrow> state \<Rightarrow> state" where
  "LazyPromise_resolveOk a v s =
     (if a < length (lazyPromises s) then
        (let p = lazyPromises s ! a in
         if resolution p = Pending then
           run_script (concat (map fst (continuations p)))
             (s\<lparr> lazyPromises :=
                  (lazyPromises s)[a := p\<lparr> resolution := ResolvedOk v, continuations := [] \<rparr>] \<rparr>)
         else s)
      else s)"

definition LazyPromise_resolveErr :: "nat \<Rightarrow> val \<Rightarrow> state \<Rightarrow> state" where
  "LazyPromise_resolveErr a e s =
     (if a < length (lazyPromises s) then
        (let p = lazyPromises s ! a in
         if resolution p = Pending then
           run_script (concat (map snd (continuations p)))
             (s\<lparr> lazyPromises :=
                  (lazyPromises s)[a := p\<lparr> resolution := ResolvedErr e, continuations := [] \<rparr>] \<rparr>)
         else s)
      else s)"

definition LazyPromise_then :: "nat \<Rightarrow> action list \<Rightarrow> action list \<Rightarrow> state \<Rightarrow> state" where
  "LazyPromise_then a onOk onErr s =
     (if a < length (lazyPromises s) then
        (let p = lazyPromises s ! a in
         case resolution p of
           Pending \<Rightarrow>
             s\<lparr> lazyPromises :=
                  (lazyPromises s)[a := p\<lparr> continuations := continuations p @ [(onOk, onErr)] \<rparr>] \<rparr>
         | ResolvedOk v \<Rightarrow> run_script onOk s
         | ResolvedErr e \<Rightarrow> run_script onErr s)
      else s)"

subsection \<open>\<^verbatim>\<open>RPCManager._receiveOneMessage\<close>\<close>

text \<open>
  \<open>own_prop m k\<close> is the property read \<^verbatim>\<open>m.k\<close> on a value that is not \<^verbatim>\<open>null\<close>,
  for the keys the program reads (\<^verbatim>\<open>seq\<close>, \<^verbatim>\<open>err\<close>, \<^verbatim>\<open>res\<close>, \<^verbatim>\<open>cancel\<close>, \<^verbatim>\<open>req\<close>,
  \<^verbatim>\<open>rpcId\<close>, \<^verbatim>\<open>method\<close>, \<^verbatim>\<open>args\<close>, \<^verbatim>\<open>$isError\<close>, \<^verbatim>\<open>name\<close>, \<^verbatim>\<open>message\<close>,
  \<^verbatim>\<open>stack\<close>): on an object it is the own property, on any other value it is
  \<^verbatim>\<open>undefined\<close>, since no prototype provides these keys to a parsed value.
\<close>

fun own_prop :: "json \<Rightarrow> string \<Rightarrow> json option" where
  "own_prop (JObj kvs) k = map_of kvs k"
| "own_prop j k = None"

text \<open>
  The chain of conditions of lines 45, 69, 76: which branch a parsed message takes.
  The first read, \<^verbatim>\<open>msg.seq\<close>, throws on \<^verbatim>\<open>null\<close>.
\<close>

datatype kind = KReply | KCancel | KBareError | KRequest

definition classify :: "json \<Rightarrow> error + kind" where
  "classify msg =
     (if msg = JNull then Inl TypeError
      else if truthy (own_prop msg ''seq'') then Inr KReply
      else if truthy (own_prop msg ''cancel'') then Inr KCancel
      else if truthy (own_prop msg ''err'') then Inr KBareError
      else Inr KRequest)"

text \<open>Lines 54-60: the error a reply carries.\<close>

definition reply_error :: "json \<Rightarrow> val" where
  "reply_error msg =
     (case own_prop msg ''err'' of
        None \<Rightarrow> VUndefined
      | Some e \<Rightarrow>
          if truthy (own_prop e ''$isError'')
          then VError (own_prop e ''name'') (own_prop e ''message'') (own_prop e ''stack'')
          else VJson e)"

text \<open>
  Lines 46-66, where \<open>seq\<close> is the key that \<^verbatim>\<open>msg.seq\<close> converts to; the conversion is
  the first thing line 46 does.
\<close>

definition receive_reply :: "string \<Rightarrow> json \<Rightarrow> state \<Rightarrow> state" where
  "receive_reply seq msg s =
     (case pendingRPCReplies s seq of
        None \<Rightarrow> s\<lparr> console := console s @ [Warn ''Got reply to unknown seq''] \<rparr>
      | Some reply \<Rightarrow>
          (let s1 = s\<lparr> pendingRPCReplies := (pendingRPCReplies s)(seq := None) \<rparr> in
           if truthy (own_prop msg ''err'') then LazyPromise_resolveErr reply (reply_error msg) s1
           else LazyPromise_resolveOk reply (of_prop (own_prop msg ''res'')) s1))"

text \<open>
  Lines 70-73, where \<open>key\<close> is the key that \<^verbatim>\<open>msg.cancel\<close> converts to. Modelled from
  the spec: \<^verbatim>\<open>TPromise\<close> (\<^verbatim>\<open>vs/base/common/winjs.base\<close>) is
  not among the sources; by the spec, asking the handle of an invocation to cancel leaves
  it to the handle's owner whether and when the work stops, and the entry stays until the
  work completes. The request is counted in \<open>inv_cancels\<close>.
\<close>

definition receive_cancel :: "string \<Rightarrow> state \<Rightarrow> state" where
  "receive_cancel key s =
     (case invokedHandlers s key of
        None \<Rightarrow> s
      | Some a \<Rightarrow>
          if a < length (invocations s) then
            s\<lparr> invocations :=
                 (invocations s)[a := (invocations s ! a)
                    \<lparr> inv_cancels := Suc (inv_cancels (invocations s ! a)) \<rparr>] \<rparr>
          else s)"

text \<open>
  The two callbacks of lines 91-97, for the outcome of the handler's work; \<open>key\<close> is
  the text of \<^verbatim>\<open>req\<close>, as a property key and in the template of the reply.
\<close>

definition on_settled :: "string \<Rightarrow> val + json option \<Rightarrow> state \<Rightarrow> state" where
  "on_settled key outcome s =
     (let s1 = s\<lparr> invokedHandlers := (invokedHandlers s)(key := None) \<rparr> in
      case outcome of
        Inr r \<Rightarrow> RPCMultiplexer_send (MessageFactory_replyOK key r) s1
      | Inl err \<Rightarrow> RPCMultiplexer_send (MessageFactory_replyErr key err) s1)"

text \<open>
  The assignment of line 89: the promise of the invocation is stored under the key of
  \<^verbatim>\<open>req\<close>. \<open>settled\<close> tells whether the promise is complete already.
\<close>

definition register :: "string \<Rightarrow> bool \<Rightarrow> state \<Rightarrow> state" where
  "register key settled s =
     s\<lparr> invocations := invocations s @
          [\<lparr> inv_key = key, inv_settled = settled, inv_cancels = 0 \<rparr>],
        invokedHandlers := (invokedHandlers s)(key \<mapsto> length (invocations s)) \<rparr>"

text \<open>
  Lines 81-97 with \<^verbatim>\<open>_invokeHandler\<close> (lines 100-106). Modelled from the spec:
  \<^verbatim>\<open>TPromise.as\<close>, \<^verbatim>\<open>TPromise.wrapError\<close> and \<^verbatim>\<open>then\<close> are not among the sources. The
  promise of a handler that returned or threw is complete when line 91 calls \<^verbatim>\<open>then\<close>
  on it, and the callback for its outcome runs there; the callback of a promise that is
  still pending runs when it settles (\<open>settle\<close> below). The handler is called before
  line 89 stores its promise, and storing it converts \<^verbatim>\<open>req\<close> to a key: when the
  conversion throws, nothing is stored and no callback is attached.
\<close>

definition receive_request :: "json \<Rightarrow> state \<Rightarrow> error + state" where
  "receive_request msg s =
     (case bigHandler s of
        None \<Rightarrow> Inl NoBigHandler
      | Some h \<Rightarrow>
          (let r = h (own_prop msg ''rpcId'') (own_prop msg ''method'') (own_prop msg ''args'')
           in case to_key (own_prop msg ''req'') of
                Inl e \<Rightarrow> Inl e
              | Inr key \<Rightarrow>
                  (case r of
                     Returns v \<Rightarrow> Inr (on_settled key (Inr v) (register key True s))
                   | Throws e \<Rightarrow> Inr (on_settled key (Inl e) (register key True s))
                   | Later \<Rightarrow> Inr (register key False s))))"

definition RPCManager_receiveOneMessage :: "string option \<Rightarrow> state \<Rightarrow> error + state" where
  "RPCManager_receiveOneMessage rawmsg s =
     (case parse (case rawmsg of None \<Rightarrow> ''undefined'' | Some t \<Rightarrow> t) of
        Inl e \<Rightarrow> Inl e
      | Inr msg \<Rightarrow>
          (case classify msg of
             Inl e \<Rightarrow> Inl e
           | Inr KReply \<Rightarrow>
               (case to_key (own_prop msg ''seq'') of
                  Inl e \<Rightarrow> Inl e
                | Inr seq \<Rightarrow> Inr (receive_reply seq msg s))
           | Inr KCancel \<Rightarrow>
               (case to_key (own_prop msg ''cancel'') of
                  Inl e \<Rightarrow> Inl e
                | Inr key \<Rightarrow> Inr (receive_cancel key s))
           | Inr KBareError \<Rightarrow> Inr (s\<lparr> console := console s @ [LogError (own_prop msg ''err'')] \<rparr>)
           | Inr KRequest \<Rightarrow> receive_request msg s))"

text \<open>
  The handler's promise settles, some time after a request for which the handler
  answered \<open>Later\<close>. A promise settles once.
\<close>

definition settle :: "nat \<Rightarrow> val + json option \<Rightarrow> state \<Rightarrow> state" where
  "settle a outcome s =
     (if a < length (invocations s) \<and> \<not> inv_settled (invocations s ! a) then
        on_settled (inv_key (invocations s ! a)) outcome
          (s\<lparr> invocations := (invocations s)[a := (invocations s ! a)\<lparr> inv_settled := True \<rparr>] \<rparr>)
      else s)"

subsection \<open>\<^verbatim>\<open>RPCMultiplexer\<close>: receiving, and the ticks\<close>

text \<open>Lines 150-157: the transport hands over a batch.\<close>

definition protocol_onMessage :: "string list \<Rightarrow> state \<Rightarrow> state" where
  "protocol_onMessage data s =
     s\<lparr> nextTick :=
          (if messagesToReceive s = [] then nextTick s @ [ReceiveOneMessageBound]
           else nextTick s),
        messagesToReceive := messagesToReceive s @ data \<rparr>"

text \<open>
  Lines 160-168. \<^verbatim>\<open>shift()\<close> on an empty array is \<^verbatim>\<open>undefined\<close>. An exception of
  \<^verbatim>\<open>_onMessage\<close> leaves the tick after the queue was updated.
\<close>

definition RPCMultiplexer_receiveOneMessage :: "state \<Rightarrow> state" where
  "RPCMultiplexer_receiveOneMessage s =
     (let rawmsg = (case messagesToReceive s of [] \<Rightarrow> None | m # _ \<Rightarrow> Some m);
          rest = tl (messagesToReceive s);
          s1 = s\<lparr> messagesToReceive := rest,
                  nextTick :=
                    (if rest \<noteq> [] then nextTick s @ [ReceiveOneMessageBound] else nextTick s),
                  delivered := delivered s @ [rawmsg] \<rparr>
      in case RPCManager_receiveOneMessage rawmsg s1 of
           Inl e \<Rightarrow> s1\<lparr> uncaught := uncaught s1 @ [e] \<rparr>
         | Inr s2 \<Rightarrow> s2)"

text \<open>One tick: the first callback of the \<^verbatim>\<open>process.nextTick\<close> queue runs.\<close>

definition run_tick :: "state \<Rightarrow> state" where
  "run_tick s =
     (case nextTick s of
        [] \<Rightarrow> s
      | t # ts \<Rightarrow>
          (case t of
             ReceiveOneMessageBound \<Rightarrow> RPCMultiplexer_receiveOneMessage (s\<lparr> nextTick := ts \<rparr>)
           | SendAccumulatedBound \<Rightarrow> RPCMultiplexer_sendAccumulated (s\<lparr> nextTick := ts \<rparr>)))"

section \<open>Notions of the statements\<close>

subsection \<open>The loop of the ticks, and batches\<close>

text \<open>Calls of \<^verbatim>\<open>send\<close> in a row, as one step makes them.\<close>

definition sends :: "string list \<Rightarrow> state \<Rightarrow> state" where
  "sends msgs s = foldl (\<lambda>s' m. RPCMultiplexer_send m s') s msgs"

text \<open>The state in which line 167 calls \<^verbatim>\<open>_onMessage\<close>.\<close>

definition popped :: "state \<Rightarrow> state" where
  "popped s =
     s\<lparr> messagesToReceive := tl (messagesToReceive s),
        nextTick := (if tl (messagesToReceive s) \<noteq> [] then nextTick s @ [ReceiveOneMessageBound]
                     else nextTick s),
        delivered := delivered s @
          [case messagesToReceive s of [] \<Rightarrow> None | m # _ \<Rightarrow> Some m] \<rparr>"

text \<open>The measure under which every tick makes progress.\<close>

definition work :: "state \<Rightarrow> nat" where
  "work s = 3 * length (messagesToReceive s) + 2 * length (nextTick s)
            + (if messagesToSend s = [] then 1 else 0)"

text \<open>
  What happens around the multiplexer: a batch arrives from the transport, or a tick
  runs. \<open>arrived\<close> is every message of the batches, in the order of arrival.
\<close>

datatype event = Arrive "string list" | Tick

fun run_event :: "event \<Rightarrow> state \<Rightarrow> state" where
  "run_event (Arrive data) s = protocol_onMessage data s"
| "run_event Tick s = run_tick s"

definition run_events :: "event list \<Rightarrow> state \<Rightarrow> state" where
  "run_events es s = foldl (\<lambda>s' e. run_event e s') s es"

fun arrived :: "event list \<Rightarrow> string list" where
  "arrived [] = []"
| "arrived (Arrive data # es) = data @ arrived es"
| "arrived (Tick # es) = arrived es"

text \<open>
  \<open>quiet es s\<close>: none of the ticks of \<open>es\<close>, run from \<open>s\<close>, is the flush
  \<^verbatim>\<open>_sendAccumulated\<close>. These are the events that can happen before the scheduled flush
  runs.
\<close>

fun quiet :: "event list \<Rightarrow> state \<Rightarrow> bool" where
  "quiet [] s = True"
| "quiet (e # es) s =
     ((case e of
         Tick \<Rightarrow> (case nextTick s of SendAccumulatedBound # ts \<Rightarrow> False | _ \<Rightarrow> True)
       | Arrive d \<Rightarrow> True)
      \<and> quiet es (run_event e s))"

subsection \<open>Sequences of calls\<close>

text \<open>\<open>N\<close> calls of \<^verbatim>\<open>callOnRemote\<close>, one after the other, and the ids they were given.\<close>

fun callsOnRemote :: "(string \<times> string \<times> json list) list \<Rightarrow> state \<Rightarrow> nat list \<times> state" where
  "callsOnRemote [] s = ([], s)"
| "callsOnRemote ((p, m, a) # cs) s =
     (let (r, s1) = callOnRemote p m a s;
          (rs, s2) = callsOnRemote cs s1
      in (r # rs, s2))"

text \<open>
  The id of a call is the \<^verbatim>\<open>req\<close> of line 109, which the cancel action of its result
  holds. \<open>alloc n k\<close> are the next \<open>k\<close> values of a counter that stands at \<open>n\<close>.
\<close>

definition ids_of :: "nat list \<times> state \<Rightarrow> string list" where
  "ids_of x = map (\<lambda>r. onCancel_req (lazyPromises (snd x) ! r)) (fst x)"

fun alloc :: "nat \<Rightarrow> nat \<Rightarrow> nat list" where
  "alloc n 0 = []"
| "alloc n (Suc k) = js_increment n # alloc (js_increment n) k"

text \<open>Two states to run the theorems on: one call issued, then a continuation attached.\<close>

definition one_call :: state where
  "one_call = snd (callOnRemote ''svc.foo'' ''bar'' [JNum 1, JNum 2] new_RPCManager)"

definition one_call_then :: state where
  "one_call_then = LazyPromise_then 0 [CallOnRemote ''svc.foo'' ''again'' []] [CancelCall 0] one_call"

text \<open>
  A manager that has made \<open>2^53\<close> calls, with a continuation attached to the result of
  the last one (its index is \<open>2^53 - 1\<close>): on success the continuation calls
  \<^verbatim>\<open>callOnRemote\<close> again.
\<close>

definition saturated_call :: state where
  "saturated_call =
     LazyPromise_then 9007199254740991 [CallOnRemote ''svc.foo'' ''again'' []] []
       (snd (callsOnRemote (replicate 9007199254740992 (''svc.foo'', ''bar'', []))
               new_RPCManager))"

text \<open>
  Handlers to run the theorems on: one that answers at once, and one whose answer
  depends on the method: a promise that settles later, an exception, or its arguments.
\<close>

definition answer_42 :: handler where
  "answer_42 rpcId method args = Returns (Some (JNum 42))"

definition sample_handler :: handler where
  "sample_handler rpcId method args =
     (if method = Some (JStr ''later'') then Later
      else if method = Some (JStr ''fail'')
        then Throws (VError (Some (JStr ''Error'')) (Some (JStr ''boom'')) None)
      else Returns args)"

text \<open>
  Managers with a handler: one that waits for messages, and two to which the transport
  has handed a batch of requests.
\<close>

definition serving :: state where
  "serving = setManyHandler (Some sample_handler) new_RPCManager"

definition one_request :: state where
  \<open>one_request =
     protocol_onMessage [''{"req":"2","rpcId":"svc.foo","method":"bar","args":[]}'']
       (setManyHandler (Some answer_42) new_RPCManager)\<close>

definition two_requests :: state where
  \<open>two_requests =
     protocol_onMessage
       [''{"req":"1","rpcId":"svc.foo","method":"bar","args":[1,2]}'',
        ''{"req":"2","rpcId":"svc.foo","method":"bar","args":[]}'']
       (setManyHandler (Some answer_42) new_RPCManager)\<close>

subsection \<open>Invariants\<close>

text \<open>
  Every key of the map of pending calls is the text of a number that the counter has
  already passed.
\<close>

definition ids_inv :: "state \<Rightarrow> bool" where
  "ids_inv s =
     (\<forall>k. k \<in> dom (pendingRPCReplies s) \<longrightarrow>
          (\<exists>n. 0 < n \<and> n \<le> lastMessageId s \<and> k = string_of_nat n))"

text \<open>
  \<open>only_sends s s'\<close>: from \<open>s\<close> to \<open>s'\<close> the multiplexer has seen calls of \<^verbatim>\<open>send\<close> and
  nothing else. The receive queue, the record of deliveries, the transport and the
  exceptions are as they were; the send buffer has grown at its end, and the flush was
  scheduled if the buffer was empty and is not any more.
\<close>

definition only_sends :: "state \<Rightarrow> state \<Rightarrow> bool" where
  "only_sends s s' =
     (messagesToReceive s' = messagesToReceive s \<and> delivered s' = delivered s
      \<and> uncaught s' = uncaught s \<and> sent s' = sent s
      \<and> (\<exists>ms. messagesToSend s' = messagesToSend s @ ms
             \<and> nextTick s' = nextTick s @
                 (if messagesToSend s = [] \<and> ms \<noteq> [] then [SendAccumulatedBound] else [])))"

text \<open>
  The delivery is scheduled exactly when messages wait: the queue of ticks holds one
  \<^verbatim>\<open>_receiveOneMessageBound\<close> if the receive queue is not empty, and none if it is.
\<close>

definition receive_inv :: "state \<Rightarrow> bool" where
  "receive_inv s =
     (length (filter (\<lambda>t. t = ReceiveOneMessageBound) (nextTick s))
      = (if messagesToReceive s = [] then 0 else 1))"

text \<open>
  The flush is scheduled exactly when messages are buffered: the queue of ticks holds
  one \<^verbatim>\<open>_sendAccumulatedBound\<close> if the send buffer is not empty, and none if it is.
\<close>

definition send_inv :: "state \<Rightarrow> bool" where
  "send_inv s =
     (length (filter (\<lambda>t. t = SendAccumulatedBound) (nextTick s))
      = (if messagesToSend s = [] then 0 else 1))"

text \<open>What \<^verbatim>\<open>_onMessage\<close> was called with, followed by what still waits.\<close>

definition pipeline :: "state \<Rightarrow> string option list" where
  "pipeline s = delivered s @ map Some (messagesToReceive s)"

subsection \<open>The texts of the serializer\<close>

text \<open>A string that the serializer writes as it is, between two quotes.\<close>

definition plain_char :: "char \<Rightarrow> bool" where
  "plain_char c = (c \<noteq> CHR 0x22 \<and> c \<noteq> CHR 0x5C \<and> 32 \<le> code c)"

definition plain :: "string \<Rightarrow> bool" where
  "plain s = list_all plain_char s"

text \<open>What may follow a value in a text of the serializer.\<close>

definition delimited :: "string \<Rightarrow> bool" where
  "delimited rest =
     (case rest of [] \<Rightarrow> True | c # _ \<Rightarrow> c = CHR '','' \<or> c = CHR '']'' \<or> c = CHR ''}'')"

text \<open>The tokens of the text that the serializer writes for a value.\<close>

fun tokens :: "json \<Rightarrow> tok list"
  and tokens_elems :: "json list \<Rightarrow> tok list"
  and tokens_members :: "(string \<times> json) list \<Rightarrow> tok list" where
  "tokens JNull = [TNull]"
| "tokens (JBool b) = [if b then TTrue else TFalse]"
| "tokens (JNum i) = [TNum i]"
| "tokens (JStr s) = [TStr s]"
| "tokens (JArr xs) = TLBrack # tokens_elems xs @ [TRBrack]"
| "tokens (JObj kvs) = TLBrace # tokens_members kvs @ [TRBrace]"
| "tokens_elems [] = []"
| "tokens_elems [x] = tokens x"
| "tokens_elems (x # y # ys) = tokens x @ TComma # tokens_elems (y # ys)"
| "tokens_members [] = []"
| "tokens_members [(k, v)] = TStr k # TColon # tokens v"
| "tokens_members ((k, v) # m # ms) =
     TStr k # TColon # tokens v @ TComma # tokens_members (m # ms)"

text \<open>
  The values of the model that are JavaScript values: every number is within \<open>2^53\<close>
  and no object has a key twice.
\<close>

fun representable :: "json \<Rightarrow> bool"
  and representable_elems :: "json list \<Rightarrow> bool"
  and representable_members :: "(string \<times> json) list \<Rightarrow> bool" where
  "representable JNull = True"
| "representable (JBool b) = True"
| "representable (JNum i) = (\<bar>i\<bar> \<le> 9007199254740992)"
| "representable (JStr s) = True"
| "representable (JArr xs) = representable_elems xs"
| "representable (JObj kvs) = (distinct (map fst kvs) \<and> representable_members kvs)"
| "representable_elems [] = True"
| "representable_elems (x # xs) = (representable x \<and> representable_elems xs)"
| "representable_members [] = True"
| "representable_members ((k, v) # kvs) = (representable v \<and> representable_members kvs)"

text \<open>Tokens put before the result of lexing the rest.\<close>

definition tok_app :: "tok list \<Rightarrow> error + tok list \<Rightarrow> error + tok list" where
  "tok_app ts r = (case r of Inl e \<Rightarrow> Inl e | Inr us \<Rightarrow> Inr (ts @ us))"

section \<open>Properties\<close>

subsection \<open>Evaluating on concrete inputs\<close>

lemma digit_char_values:
  "digit_char 0 = CHR ''0''" "digit_char 1 = CHR ''1''" "digit_char 2 = CHR ''2''"
  "digit_char 3 = CHR ''3''" "digit_char 4 = CHR ''4''" "digit_char 5 = CHR ''5''"
  "digit_char 6 = CHR ''6''" "digit_char 7 = CHR ''7''" "digit_char 8 = CHR ''8''"
  "digit_char 9 = CHR ''9''" "digit_char (Suc 0) = CHR ''1''"
  by code_simp+

lemma string_of_nat_digit: "n < 10 \<Longrightarrow> string_of_nat n = [digit_char n]"
  by (simp add: string_of_nat.simps)

lemma string_of_nat_small:
  "string_of_nat 0 = ''0''" "string_of_nat (Suc 0) = ''1''" "string_of_nat 1 = ''1''"
  "string_of_nat 2 = ''2''" "string_of_nat 3 = ''3''"
  by (simp_all add: string_of_nat_digit digit_char_values)

lemmas call_defs =
  callOnRemote_def Let_def js_increment_def new_RPCManager_def RPCMultiplexer_send_def
  string_of_nat_small

lemmas receive_defs =
  RPCManager_receiveOneMessage_def classify_def truthy_def to_key_def of_prop_def
  receive_reply_def receive_cancel_def receive_request_def reply_error_def on_settled_def
  LazyPromise_resolveOk_def LazyPromise_resolveErr_def run_script_def

subsection \<open>A reply whose error is \<^verbatim>\<open>null\<close>\<close>

lemma parse_reply_err_null:
  \<open>parse ''{"seq":"1","err":null}'' = Inr (JObj [(''seq'', JStr ''1''), (''err'', JNull)])\<close>
  by code_simp

text \<open>
  C1. The claim is that, for a pending call with correlation id \<open>1\<close>, the reply text
  \<^verbatim>\<open>{"seq":"1","err":null}\<close> resolves the call's result to a failure whose payload is
  \<^verbatim>\<open>null\<close>. The program does otherwise: line 53 tests \<^verbatim>\<open>msg.err\<close> for truth, \<^verbatim>\<open>null\<close>
  is not true, and line 65 resolves the result as a success with \<^verbatim>\<open>msg.res\<close>, which is
  \<^verbatim>\<open>undefined\<close>. The theorem runs the scenario of the spec: the first call of a new
  manager gets the id \<open>1\<close>, and the reply leaves its result resolved-ok with
  \<^verbatim>\<open>undefined\<close> and the entry removed.
\<close>

theorem C1_null_error_reply_resolves_ok:
  \<open>map_sum id (\<lambda>s'. (resolution (lazyPromises s' ! 0), pendingRPCReplies s' ''1''))
     (RPCManager_receiveOneMessage (Some ''{"seq":"1","err":null}'')
        (snd (callOnRemote ''svc.foo'' ''bar'' [JNum 1, JNum 2] new_RPCManager)))
   = Inr (ResolvedOk VUndefined, None)\<close>
  by (simp add: receive_defs call_defs parse_reply_err_null)

subsection \<open>What a continuation leaves alone\<close>





subsection \<open>Texts of messages, parsed\<close>

lemma parse_reply_7:
  \<open>parse ''{"seq":"7","res":1}'' = Inr (JObj [(''seq'', JStr ''7''), (''res'', JNum 1)])\<close>
  by code_simp

lemma parse_request_1:
  \<open>parse ''{"req":"1","rpcId":"svc.foo","method":"bar","args":[1,2]}''
   = Inr (JObj [(''req'', JStr ''1''), (''rpcId'', JStr ''svc.foo''), (''method'', JStr ''bar''),
                (''args'', JArr [JNum 1, JNum 2])])\<close>
  by code_simp

subsection \<open>Correlation ids\<close>

lemma code_digit_char: "d < 10 \<Longrightarrow> code (digit_char d) = 48 + d"
  by (simp add: code_def digit_char_def)

lemma int_of_digits_snoc:
  "int_of_digits (ds @ [c]) = 10 * int_of_digits ds + (int (code c) - 48)"
  by (simp add: int_of_digits_def)

lemma int_of_digits_string_of_nat: "int_of_digits (string_of_nat n) = int n"
proof (induction n rule: string_of_nat.induct)
  case (1 n)
  show ?case
  proof (cases "n < 10")
    case True
    then show ?thesis
      by (simp add: string_of_nat_digit int_of_digits_def code_digit_char)
  next
    case False
    then have "string_of_nat n = string_of_nat (n div 10) @ [digit_char (n mod 10)]"
      by (subst string_of_nat.simps) simp
    moreover have "10 * int (n div 10) + int (n mod 10) = int n"
      by presburger
    ultimately show ?thesis
      using 1[OF False] by (simp add: int_of_digits_snoc code_digit_char)
  qed
qed

lemma string_of_nat_inj: "string_of_nat a = string_of_nat b \<Longrightarrow> a = b"
  by (metis int_of_digits_string_of_nat of_nat_eq_iff)

lemma ids_inv_new: "ids_inv new_RPCManager"
  by (simp add: ids_inv_def new_RPCManager_def)

lemma ids_inv_callOnRemote:
  assumes "ids_inv s"
  shows "ids_inv (snd (callOnRemote p m a s))"
proof -
  let ?n = "js_increment (lastMessageId s)"
  let ?s' = "snd (callOnRemote p m a s)"
  have n: "lastMessageId s \<le> ?n" "0 < ?n"
    by (simp_all add: js_increment_def)
  have pend: "pendingRPCReplies ?s'
              = (pendingRPCReplies s)(string_of_nat ?n \<mapsto> length (lazyPromises s))"
    and last: "lastMessageId ?s' = ?n"
    by (simp_all add: callOnRemote_def Let_def RPCMultiplexer_send_def)
  show ?thesis
    unfolding ids_inv_def pend last
  proof (intro allI impI)
    fix k
    assume "k \<in> dom ((pendingRPCReplies s)(string_of_nat ?n \<mapsto> length (lazyPromises s)))"
    then consider "k = string_of_nat ?n" | "k \<in> dom (pendingRPCReplies s)"
      by auto
    then show "\<exists>j. 0 < j \<and> j \<le> ?n \<and> k = string_of_nat j"
    proof cases
      case 1
      with n show ?thesis by auto
    next
      case 2
      with assms obtain j where "0 < j" "j \<le> lastMessageId s" "k = string_of_nat j"
        unfolding ids_inv_def by blast
      with n(1) have "0 < j \<and> j \<le> ?n \<and> k = string_of_nat j" by simp
      then show ?thesis by (rule exI)
    qed
  qed
qed

lemma ids_inv_cancel: "ids_inv s \<Longrightarrow> ids_inv (LazyPromise_cancel a s)"
  by (simp add: ids_inv_def LazyPromise_cancel_def Let_def RPCMultiplexer_send_def)

lemma ids_inv_run_action: "ids_inv s \<Longrightarrow> ids_inv (run_action a s)"
  by (cases a) (simp_all add: ids_inv_callOnRemote ids_inv_cancel, simp add: ids_inv_def setManyHandler_def)

lemma ids_inv_run_script: "ids_inv s \<Longrightarrow> ids_inv (run_script acts s)"
proof (induction acts arbitrary: s)
  case Nil
  then show ?case by (simp add: run_script_def)
next
  case (Cons a acts)
  from Cons.IH[OF ids_inv_run_action[OF Cons.prems, of a]] show ?case
    by (simp add: run_script_def)
qed

text \<open>A fresh id is not a key of the map.\<close>

lemma fresh_id_not_pending:
  assumes "ids_inv s" "lastMessageId s < 9007199254740992"
  shows "pendingRPCReplies s (string_of_nat (js_increment (lastMessageId s))) = None"
proof (rule ccontr)
  assume "pendingRPCReplies s (string_of_nat (js_increment (lastMessageId s))) \<noteq> None"
  then have "string_of_nat (js_increment (lastMessageId s)) \<in> dom (pendingRPCReplies s)"
    by auto
  with assms(1) obtain n where "n \<le> lastMessageId s"
    "string_of_nat (js_increment (lastMessageId s)) = string_of_nat n"
    unfolding ids_inv_def by blast
  with assms(2) show False
    by (auto dest: string_of_nat_inj simp: js_increment_def)
qed

lemma callsOnRemote_Cons:
  "callsOnRemote (c # cs) s =
     (fst (callOnRemote (fst c) (fst (snd c)) (snd (snd c)) s)
        # fst (callsOnRemote cs (snd (callOnRemote (fst c) (fst (snd c)) (snd (snd c)) s))),
      snd (callsOnRemote cs (snd (callOnRemote (fst c) (fst (snd c)) (snd (snd c)) s))))"
  by (cases c) (simp add: Let_def split: prod.splits)

lemma callOnRemote_fields:
  "fst (callOnRemote p m a s) = length (lazyPromises s)"
  "lastMessageId (snd (callOnRemote p m a s)) = js_increment (lastMessageId s)"
  "lazyPromises (snd (callOnRemote p m a s)) = lazyPromises s @
     [\<lparr> onCancel_req = string_of_nat (js_increment (lastMessageId s)), resolution = Pending,
        cancelRequested = False, continuations = [] \<rparr>]"
  "pendingRPCReplies (snd (callOnRemote p m a s))
     = (pendingRPCReplies s)(string_of_nat (js_increment (lastMessageId s)) \<mapsto> length (lazyPromises s))"
  by (simp_all add: callOnRemote_def Let_def RPCMultiplexer_send_def)

lemma callsOnRemote_lazy:
  "\<exists>ext. lazyPromises (snd (callsOnRemote cs s)) = lazyPromises s @ ext
       \<and> map (\<lambda>r. (lazyPromises s @ ext) ! r) (fst (callsOnRemote cs s)) = ext
       \<and> map onCancel_req ext = map string_of_nat (alloc (lastMessageId s) (length cs))"
proof (induction cs arbitrary: s)
  case Nil
  then show ?case by simp
next
  case (Cons c cs)
  let ?s1 = "snd (callOnRemote (fst c) (fst (snd c)) (snd (snd c)) s)"
  let ?p = "\<lparr> onCancel_req = string_of_nat (js_increment (lastMessageId s)), resolution = Pending,
        cancelRequested = False, continuations = [] \<rparr>"
  from Cons.IH[of ?s1] obtain ext where
    e: "lazyPromises (snd (callsOnRemote cs ?s1)) = lazyPromises ?s1 @ ext"
    and r: "map (\<lambda>r. (lazyPromises ?s1 @ ext) ! r) (fst (callsOnRemote cs ?s1)) = ext"
    and i: "map onCancel_req ext = map string_of_nat (alloc (lastMessageId ?s1) (length cs))"
    by blast
  have l1: "lazyPromises ?s1 @ ext = lazyPromises s @ (?p # ext)"
    by (simp add: callOnRemote_fields)
  have "lazyPromises (snd (callsOnRemote (c # cs) s)) = lazyPromises s @ (?p # ext)"
    using e by (simp add: callsOnRemote_Cons callOnRemote_fields)
  moreover have "map (\<lambda>r. (lazyPromises s @ (?p # ext)) ! r) (fst (callsOnRemote (c # cs) s))
      = ?p # ext"
    using r unfolding l1 by (simp add: callsOnRemote_Cons callOnRemote_fields)
  moreover have "map onCancel_req (?p # ext)
      = map string_of_nat (alloc (lastMessageId s) (length (c # cs)))"
  proof -
    have "alloc (lastMessageId s) (length (c # cs))
          = js_increment (lastMessageId s) # alloc (lastMessageId ?s1) (length cs)"
      by (simp add: callOnRemote_fields(2))
    then show ?thesis by (simp add: i)
  qed
  ultimately show ?case by (intro exI[of _ "?p # ext"] conjI)
qed

lemma ids_of_callsOnRemote:
  "ids_of (callsOnRemote cs s) = map string_of_nat (alloc (lastMessageId s) (length cs))"
proof -
  from callsOnRemote_lazy[of cs s] obtain ext where
    e: "lazyPromises (snd (callsOnRemote cs s)) = lazyPromises s @ ext"
    and r: "map (\<lambda>r. (lazyPromises s @ ext) ! r) (fst (callsOnRemote cs s)) = ext"
    and i: "map onCancel_req ext = map string_of_nat (alloc (lastMessageId s) (length cs))"
    by blast
  have "ids_of (callsOnRemote cs s)
        = map onCancel_req (map (\<lambda>r. (lazyPromises s @ ext) ! r) (fst (callsOnRemote cs s)))"
    by (simp add: ids_of_def e)
  with r i show ?thesis by simp
qed

lemma alloc_exact:
  "n + k \<le> 9007199254740992 \<Longrightarrow> alloc n k = [Suc n ..< Suc (n + k)]"
proof (induction k arbitrary: n)
  case 0
  then show ?case by simp
next
  case (Suc k)
  then have j: "js_increment n = Suc n" by (simp add: js_increment_def)
  from Suc.prems have "Suc n + k \<le> 9007199254740992" by simp
  from Suc.IH[OF this] show ?case
    by (simp add: j upt_conv_Cons)
qed

lemma alloc_add: "alloc n (j + k) = alloc n j @ alloc ((js_increment ^^ j) n) k"
  by (induction j arbitrary: n) (simp_all add: funpow_swap1)

lemma js_increment_funpow:
  "n + j \<le> 9007199254740992 \<Longrightarrow> (js_increment ^^ j) n = n + j"
  by (induction j) (simp_all add: js_increment_def)

lemma pending_after_calls:
  "k \<notin> set (ids_of (callsOnRemote cs s))
   \<Longrightarrow> pendingRPCReplies (snd (callsOnRemote cs s)) k = pendingRPCReplies s k"
proof (induction cs arbitrary: s)
  case Nil
  then show ?case by simp
next
  case (Cons c cs)
  let ?s1 = "snd (callOnRemote (fst c) (fst (snd c)) (snd (snd c)) s)"
  from Cons.prems have k1: "k \<noteq> string_of_nat (js_increment (lastMessageId s))"
    and k2: "k \<notin> set (ids_of (callsOnRemote cs ?s1))"
    by (simp_all add: ids_of_callsOnRemote callOnRemote_fields)
  from Cons.IH[OF k2] k1 show ?case
    by (simp add: callsOnRemote_Cons callOnRemote_fields)
qed

lemma calls_registered:
  assumes "lastMessageId s + length cs \<le> 9007199254740992"
  shows "map (pendingRPCReplies (snd (callsOnRemote cs s))) (ids_of (callsOnRemote cs s))
         = map Some (fst (callsOnRemote cs s))"
  using assms
proof (induction cs arbitrary: s)
  case Nil
  then show ?case by (simp add: ids_of_def)
next
  case (Cons c cs)
  let ?s1 = "snd (callOnRemote (fst c) (fst (snd c)) (snd (snd c)) s)"
  let ?n = "lastMessageId s"
  from Cons.prems have j: "js_increment ?n = Suc ?n" by (simp add: js_increment_def)
  from Cons.prems have b: "lastMessageId ?s1 + length cs \<le> 9007199254740992"
    by (simp add: callOnRemote_fields j)
  have ids1: "ids_of (callsOnRemote cs ?s1) = map string_of_nat [Suc (Suc ?n) ..< Suc (Suc ?n + length cs)]"
    using b by (simp add: ids_of_callsOnRemote alloc_exact callOnRemote_fields j)
  have "string_of_nat (Suc ?n) \<notin> set (ids_of (callsOnRemote cs ?s1))"
    unfolding ids1 by (auto dest: string_of_nat_inj)
  from pending_after_calls[OF this]
  have head: "pendingRPCReplies (snd (callsOnRemote cs ?s1)) (string_of_nat (Suc ?n))
              = Some (length (lazyPromises s))"
    by (simp add: callOnRemote_fields j)
  have ids: "ids_of (callsOnRemote (c # cs) s)
             = string_of_nat (Suc ?n) # ids_of (callsOnRemote cs ?s1)"
    by (simp add: ids_of_callsOnRemote callOnRemote_fields j)
  show ?case
    unfolding ids using Cons.IH[OF b] head
    by (simp add: callsOnRemote_Cons callOnRemote_fields)
qed

text \<open>
  C3, as the program has it. The counter is a JavaScript number: \<open>9007199254740992\<close> is
  \<open>2^53\<close>, where \<^verbatim>\<open>++\<close> stops changing it. As long as the counter stays within
  \<open>2^53\<close>, \<open>N\<close> calls in a row are given the ids \<open>n+1, \<dots>, n+N\<close> (as decimal texts): they
  are pairwise distinct, they increase strictly as numbers, each is the key of its own
  call in the map of pending calls once all \<open>N\<close> are issued, and none was the key of a
  call that was pending before.
\<close>

theorem C3_ids_distinct_and_increasing:
  assumes "lastMessageId s + length cs \<le> 9007199254740992" and "ids_inv s"
  shows "ids_of (callsOnRemote cs s)
           = map string_of_nat [Suc (lastMessageId s) ..< Suc (lastMessageId s + length cs)]
       \<and> distinct (ids_of (callsOnRemote cs s))
       \<and> sorted_wrt (<) (map int_of_digits (ids_of (callsOnRemote cs s)))
       \<and> map (pendingRPCReplies (snd (callsOnRemote cs s))) (ids_of (callsOnRemote cs s))
           = map Some (fst (callsOnRemote cs s))
       \<and> set (ids_of (callsOnRemote cs s)) \<inter> dom (pendingRPCReplies s) = {}"
proof -
  let ?n = "lastMessageId s"
  have ids: "ids_of (callsOnRemote cs s) = map string_of_nat [Suc ?n ..< Suc (?n + length cs)]"
    using assms(1) by (simp add: ids_of_callsOnRemote alloc_exact)
  have d: "distinct (ids_of (callsOnRemote cs s))"
    unfolding ids by (auto simp: distinct_map intro!: inj_onI dest: string_of_nat_inj)
  have "map int_of_digits (ids_of (callsOnRemote cs s)) = map int [Suc ?n ..< Suc (?n + length cs)]"
    unfolding ids by (simp add: int_of_digits_string_of_nat del: upt_Suc)
  then have so: "sorted_wrt (<) (map int_of_digits (ids_of (callsOnRemote cs s)))"
    by (simp add: sorted_wrt_map del: upt_Suc)
  have fresh: "set (ids_of (callsOnRemote cs s)) \<inter> dom (pendingRPCReplies s) = {}"
  proof (rule ccontr)
    assume "set (ids_of (callsOnRemote cs s)) \<inter> dom (pendingRPCReplies s) \<noteq> {}"
    then obtain k where k: "k \<in> set (ids_of (callsOnRemote cs s))" "k \<in> dom (pendingRPCReplies s)"
      by blast
    from k(1) have "k \<in> string_of_nat ` {Suc ?n ..< Suc (?n + length cs)}"
      unfolding ids by (simp del: upt_Suc)
    then obtain i where i: "?n < i" "k = string_of_nat i"
      by (auto simp: Suc_le_eq)
    from k(2) assms(2) obtain j where j: "j \<le> ?n" "k = string_of_nat j"
      unfolding ids_inv_def by blast
    from i j show False by (auto dest: string_of_nat_inj)
  qed
  from ids d so calls_registered[OF assms(1)] fresh show ?thesis by blast
qed

theorem C3_ids_witness:
  "ids_of (callsOnRemote [(''svc.foo'', ''bar'', []), (''svc.foo'', ''baz'', [])] new_RPCManager)
     = [''1'', ''2'']"
proof -
  have b: "lastMessageId new_RPCManager
           + length [(''svc.foo'', ''bar'', [] :: json list), (''svc.foo'', ''baz'', [])]
           \<le> 9007199254740992"
    by (simp add: new_RPCManager_def)
  have l: "lastMessageId new_RPCManager = 0"
    by (simp add: new_RPCManager_def)
  have two: "string_of_nat (Suc (Suc 0)) = ''2''"
    using string_of_nat_small(4) by (simp add: numeral_2_eq_2)
  from C3_ids_distinct_and_increasing[OF b ids_inv_new, THEN conjunct1] show ?thesis
    unfolding l
    by (simp add: upt_conv_Cons string_of_nat_small two del: callsOnRemote.simps)
qed

text \<open>
  The claim as stated, for every \<open>N\<close>, fails at \<open>N = 2^53 + 1\<close>: the last two calls are
  both given the id \<open>2^53\<close>.
\<close>

theorem C3_ids_counterexample:
  "\<not> distinct (ids_of (callsOnRemote (replicate 9007199254740993 (''svc.foo'', ''bar'', []))
        new_RPCManager))"
proof -
  have "alloc 0 (9007199254740991 + 2) = alloc 0 9007199254740991 @ alloc ((js_increment ^^ 9007199254740991) 0) 2"
    by (rule alloc_add)
  also have "(js_increment ^^ 9007199254740991) 0 = 9007199254740991"
    using js_increment_funpow[of 0 9007199254740991] by simp
  also have "alloc 9007199254740991 2 = [9007199254740992, 9007199254740992]"
    by (simp add: numeral_2_eq_2 js_increment_def)
  finally have "alloc 0 9007199254740993
      = alloc 0 9007199254740991 @ [9007199254740992, 9007199254740992]"
    by simp
  then show ?thesis
    by (simp add: ids_of_callsOnRemote new_RPCManager_def)
qed

subsection \<open>What the continuations do to the counter and to the map\<close>

lemma run_script_Cons: "run_script (a # acts) s = run_script acts (run_action a s)"
  by (simp add: run_script_def)

lemma run_script_Nil: "run_script [] s = s"
  by (simp add: run_script_def)

lemma run_action_counter: "lastMessageId s \<le> lastMessageId (run_action a s)"
  by (cases a)
     (simp_all add: callOnRemote_def Let_def RPCMultiplexer_send_def js_increment_def
        LazyPromise_cancel_def setManyHandler_def)

lemma run_script_counter: "lastMessageId s \<le> lastMessageId (run_script acts s)"
proof (induction acts arbitrary: s)
  case Nil
  then show ?case by (simp add: run_script_Nil)
next
  case (Cons a acts)
  from run_action_counter[of s a] Cons.IH[of "run_action a s"] show ?case
    by (simp add: run_script_Cons)
qed

lemma run_action_keeps_absent:
  assumes "pendingRPCReplies s (string_of_nat m) = None" "m \<le> lastMessageId s"
    and "lastMessageId s < 9007199254740992"
  shows "pendingRPCReplies (run_action a s) (string_of_nat m) = None"
proof (cases a)
  case (CallOnRemote p meth args)
  from assms(2,3) have "string_of_nat (js_increment (lastMessageId s)) \<noteq> string_of_nat m"
    by (auto simp: js_increment_def dest: string_of_nat_inj)
  with assms(1) CallOnRemote show ?thesis
    by (simp add: callOnRemote_def Let_def RPCMultiplexer_send_def)
next
  case (CancelCall c)
  with assms(1) show ?thesis
    by (simp add: LazyPromise_cancel_def Let_def RPCMultiplexer_send_def)
next
  case (SetManyHandler h)
  with assms(1) show ?thesis by (simp add: setManyHandler_def)
qed

lemma run_script_keeps_absent:
  assumes "pendingRPCReplies s (string_of_nat m) = None" "m \<le> lastMessageId s"
    and "lastMessageId (run_script acts s) < 9007199254740992"
  shows "pendingRPCReplies (run_script acts s) (string_of_nat m) = None"
  using assms
proof (induction acts arbitrary: s)
  case Nil
  then show ?case by (simp add: run_script_Nil)
next
  case (Cons a acts)
  let ?s1 = "run_action a s"
  from Cons.prems(3) have fin: "lastMessageId (run_script acts ?s1) < 9007199254740992"
    by (simp add: run_script_Cons)
  from run_script_counter[of ?s1 acts] run_action_counter[of s a] fin
  have b: "lastMessageId s < 9007199254740992" by simp
  have 1: "pendingRPCReplies ?s1 (string_of_nat m) = None"
    by (rule run_action_keeps_absent[OF Cons.prems(1,2) b])
  have 2: "m \<le> lastMessageId ?s1"
    using Cons.prems(2) run_action_counter[of s a] by simp
  from Cons.IH[OF 1 2 fin] show ?case by (simp add: run_script_Cons)
qed

lemma receive_reply_known:
  assumes "pendingRPCReplies s k = Some r"
  shows "receive_reply k msg s =
           (if truthy (own_prop msg ''err'')
            then LazyPromise_resolveErr r (reply_error msg)
                   (s\<lparr> pendingRPCReplies := (pendingRPCReplies s)(k := None) \<rparr>)
            else LazyPromise_resolveOk r (of_prop (own_prop msg ''res''))
                   (s\<lparr> pendingRPCReplies := (pendingRPCReplies s)(k := None) \<rparr>))"
  using assms by (simp add: receive_reply_def Let_def)

lemma dispatch_reply:
  assumes "parse raw = Inr msg" "msg \<noteq> JNull" "truthy (own_prop msg ''seq'')"
    "to_key (own_prop msg ''seq'') = Inr k"
  shows "RPCManager_receiveOneMessage (Some raw) s = Inr (receive_reply k msg s)"
  using assms by (simp add: RPCManager_receiveOneMessage_def classify_def)

lemma resolve_counter_pending:
  "lastMessageId (LazyPromise_resolveOk r v s) < 9007199254740992 \<Longrightarrow>
   pendingRPCReplies s (string_of_nat m) = None \<Longrightarrow> m \<le> lastMessageId s \<Longrightarrow>
   pendingRPCReplies (LazyPromise_resolveOk r v s) (string_of_nat m) = None"
  "lastMessageId (LazyPromise_resolveErr r e s) < 9007199254740992 \<Longrightarrow>
   pendingRPCReplies s (string_of_nat m) = None \<Longrightarrow> m \<le> lastMessageId s \<Longrightarrow>
   pendingRPCReplies (LazyPromise_resolveErr r e s) (string_of_nat m) = None"
  unfolding LazyPromise_resolveOk_def LazyPromise_resolveErr_def Let_def
  by (auto intro!: run_script_keeps_absent)


lemma parse_reply_42:
  \<open>parse ''{"seq":"1","res":42}'' = Inr (JObj [(''seq'', JStr ''1''), (''res'', JNum 42)])\<close>
  by code_simp

subsection \<open>One call with a continuation\<close>

lemma ids_inv_then: "ids_inv s \<Longrightarrow> ids_inv (LazyPromise_then a onOk onErr s)"
  unfolding LazyPromise_then_def Let_def
  by (auto split: resolution.splits intro: ids_inv_run_script) (simp add: ids_inv_def)

lemma ids_inv_one_call_then: "ids_inv one_call_then"
  unfolding one_call_then_def one_call_def
  by (intro ids_inv_then ids_inv_callOnRemote ids_inv_new)

lemma one_call_then_fields:
  "pendingRPCReplies one_call_then ''1'' = Some 0"
  "lastMessageId one_call_then = 1"
  "lazyPromises one_call_then =
     [\<lparr> onCancel_req = ''1'', resolution = Pending, cancelRequested = False,
        continuations = [([CallOnRemote ''svc.foo'' ''again'' []], [CancelCall 0])] \<rparr>]"
  by (simp_all add: one_call_then_def one_call_def call_defs LazyPromise_then_def)

subsection \<open>What the dispatch does to the multiplexer\<close>

lemma only_sends_refl: "only_sends s s"
  by (simp add: only_sends_def)

lemma only_sends_same:
  assumes "messagesToReceive s' = messagesToReceive s" "delivered s' = delivered s"
    "uncaught s' = uncaught s" "sent s' = sent s" "messagesToSend s' = messagesToSend s"
    "nextTick s' = nextTick s"
  shows "only_sends s s'"
  using assms by (simp add: only_sends_def)

lemma only_sends_trans:
  assumes "only_sends s t" "only_sends t u"
  shows "only_sends s u"
proof -
  from assms(1) obtain ms1 where 1: "messagesToSend t = messagesToSend s @ ms1"
    "nextTick t = nextTick s @ (if messagesToSend s = [] \<and> ms1 \<noteq> [] then [SendAccumulatedBound] else [])"
    unfolding only_sends_def by blast
  from assms(2) obtain ms2 where 2: "messagesToSend u = messagesToSend t @ ms2"
    "nextTick u = nextTick t @ (if messagesToSend t = [] \<and> ms2 \<noteq> [] then [SendAccumulatedBound] else [])"
    unfolding only_sends_def by blast
  have a: "messagesToSend u = messagesToSend s @ (ms1 @ ms2)"
    using 1 2 by simp
  have b: "nextTick u = nextTick s @
      (if messagesToSend s = [] \<and> ms1 @ ms2 \<noteq> [] then [SendAccumulatedBound] else [])"
    using 1 2 by (cases "messagesToSend s = []"; cases "ms1 = []"; simp)
  from a b have "\<exists>ms. messagesToSend u = messagesToSend s @ ms
             \<and> nextTick u = nextTick s @
                 (if messagesToSend s = [] \<and> ms \<noteq> [] then [SendAccumulatedBound] else [])"
    by blast
  with assms show ?thesis
    unfolding only_sends_def by simp
qed

lemma only_sends_send: "only_sends s (RPCMultiplexer_send m s)"
proof -
  have "messagesToSend (RPCMultiplexer_send m s) = messagesToSend s @ [m]
      \<and> nextTick (RPCMultiplexer_send m s) = nextTick s @
          (if messagesToSend s = [] \<and> [m] \<noteq> [] then [SendAccumulatedBound] else [])"
    by (simp add: RPCMultiplexer_send_def)
  then have "\<exists>ms. messagesToSend (RPCMultiplexer_send m s) = messagesToSend s @ ms
      \<and> nextTick (RPCMultiplexer_send m s) = nextTick s @
          (if messagesToSend s = [] \<and> ms \<noteq> [] then [SendAccumulatedBound] else [])"
    by (rule exI)
  then show ?thesis
    unfolding only_sends_def by (simp add: RPCMultiplexer_send_def)
qed

lemma only_sends_callOnRemote: "only_sends s (snd (callOnRemote p m a s))"
proof -
  let ?s1 = "s\<lparr> lastMessageId := js_increment (lastMessageId s),
                  lazyPromises := lazyPromises s @
                    [\<lparr> onCancel_req = string_of_nat (js_increment (lastMessageId s)),
                       resolution = Pending, cancelRequested = False, continuations = [] \<rparr>],
                  pendingRPCReplies := (pendingRPCReplies s)
                    (string_of_nat (js_increment (lastMessageId s)) \<mapsto> length (lazyPromises s)) \<rparr>"
  have "only_sends s ?s1" by (rule only_sends_same) simp_all
  moreover have "only_sends ?s1 (RPCMultiplexer_send
      (MessageFactory_request (string_of_nat (js_increment (lastMessageId s))) p m a) ?s1)"
    by (rule only_sends_send)
  ultimately show ?thesis
    unfolding callOnRemote_def Let_def snd_conv by (rule only_sends_trans)
qed

lemma only_sends_cancel: "only_sends s (LazyPromise_cancel a s)"
proof (cases "a < length (lazyPromises s) \<and> resolution (lazyPromises s ! a) = Pending
    \<and> \<not> cancelRequested (lazyPromises s ! a)")
  case True
  let ?s1 = "s\<lparr> lazyPromises := (lazyPromises s)[a := (lazyPromises s ! a)\<lparr> cancelRequested := True \<rparr>] \<rparr>"
  have "only_sends s ?s1" by (rule only_sends_same) simp_all
  moreover have "only_sends ?s1
      (RPCMultiplexer_send (MessageFactory_cancel (onCancel_req (lazyPromises s ! a))) ?s1)"
    by (rule only_sends_send)
  ultimately have "only_sends s
      (RPCMultiplexer_send (MessageFactory_cancel (onCancel_req (lazyPromises s ! a))) ?s1)"
    by (rule only_sends_trans)
  with True show ?thesis by (simp add: LazyPromise_cancel_def Let_def)
next
  case False
  then have "LazyPromise_cancel a s = s"
    by (auto simp: LazyPromise_cancel_def Let_def)
  then show ?thesis by (simp add: only_sends_refl)
qed

lemma only_sends_run_action: "only_sends s (run_action a s)"
proof (cases a)
  case (CallOnRemote p m args)
  then show ?thesis by (simp add: only_sends_callOnRemote)
next
  case (CancelCall c)
  then show ?thesis by (simp add: only_sends_cancel)
next
  case (SetManyHandler h)
  then show ?thesis by (simp add: setManyHandler_def only_sends_same)
qed

lemma only_sends_run_script: "only_sends s (run_script acts s)"
proof (induction acts arbitrary: s)
  case Nil
  then show ?case by (simp add: run_script_Nil only_sends_refl)
next
  case (Cons a acts)
  from only_sends_trans[OF only_sends_run_action[of s a] Cons.IH[of "run_action a s"]]
  show ?case by (simp add: run_script_Cons)
qed

lemma only_sends_resolveOk: "only_sends s (LazyPromise_resolveOk a v s)"
proof (cases "a < length (lazyPromises s) \<and> resolution (lazyPromises s ! a) = Pending")
  case True
  let ?s1 = "s\<lparr> lazyPromises := (lazyPromises s)[a := (lazyPromises s ! a)
      \<lparr> resolution := ResolvedOk v, continuations := [] \<rparr>] \<rparr>"
  have "only_sends s ?s1" by (rule only_sends_same) simp_all
  from only_sends_trans[OF this only_sends_run_script[of ?s1]] True show ?thesis
    by (simp add: LazyPromise_resolveOk_def Let_def)
next
  case False
  then have "LazyPromise_resolveOk a v s = s"
    by (auto simp: LazyPromise_resolveOk_def Let_def)
  then show ?thesis by (simp add: only_sends_refl)
qed

lemma only_sends_resolveErr: "only_sends s (LazyPromise_resolveErr a e s)"
proof (cases "a < length (lazyPromises s) \<and> resolution (lazyPromises s ! a) = Pending")
  case True
  let ?s1 = "s\<lparr> lazyPromises := (lazyPromises s)[a := (lazyPromises s ! a)
      \<lparr> resolution := ResolvedErr e, continuations := [] \<rparr>] \<rparr>"
  have "only_sends s ?s1" by (rule only_sends_same) simp_all
  from only_sends_trans[OF this only_sends_run_script[of ?s1]] True show ?thesis
    by (simp add: LazyPromise_resolveErr_def Let_def)
next
  case False
  then have "LazyPromise_resolveErr a e s = s"
    by (auto simp: LazyPromise_resolveErr_def Let_def)
  then show ?thesis by (simp add: only_sends_refl)
qed

lemma only_sends_receive_reply: "only_sends s (receive_reply k msg s)"
proof (cases "pendingRPCReplies s k")
  case None
  then show ?thesis by (simp add: receive_reply_def only_sends_same)
next
  case (Some r)
  let ?d = "s\<lparr> pendingRPCReplies := (pendingRPCReplies s)(k := None) \<rparr>"
  have d: "only_sends s ?d" by (rule only_sends_same) simp_all
  show ?thesis
    unfolding receive_reply_known[OF Some]
    using only_sends_trans[OF d only_sends_resolveOk[of ?d]]
      only_sends_trans[OF d only_sends_resolveErr[of ?d]]
    by simp
qed

lemma only_sends_receive_cancel: "only_sends s (receive_cancel k s)"
  by (auto simp: receive_cancel_def only_sends_refl only_sends_same split: option.splits)

lemma only_sends_on_settled: "only_sends s (on_settled k out s)"
proof -
  let ?s1 = "s\<lparr> invokedHandlers := (invokedHandlers s)(k := None) \<rparr>"
  have d: "only_sends s ?s1" by (rule only_sends_same) simp_all
  show ?thesis
    unfolding on_settled_def Let_def
    by (cases out) (simp_all add: only_sends_trans[OF d only_sends_send])
qed

lemma only_sends_receive_request:
  assumes "receive_request msg s = Inr s'"
  shows "only_sends s s'"
proof (cases "bigHandler s")
  case None
  with assms show ?thesis by (simp add: receive_request_def)
next
  case (Some h)
  from assms Some obtain k where k: "to_key (own_prop msg ''req'') = Inr k"
    by (cases "to_key (own_prop msg ''req'')") (simp_all add: receive_request_def Let_def)
  have d: "only_sends s (register k b s)" for b
    by (rule only_sends_same) (simp_all add: register_def)
  from assms Some k
  have "s' = register k False s \<or> (\<exists>out. s' = on_settled k out (register k True s))"
    by (auto simp: receive_request_def Let_def split: hresult.splits)
  with d show ?thesis
    by (auto intro: only_sends_trans[OF d only_sends_on_settled])
qed

lemma only_sends_dispatch:
  assumes "RPCManager_receiveOneMessage raw s = Inr s'"
  shows "only_sends s s'"
  using assms
  by (auto simp: RPCManager_receiveOneMessage_def only_sends_receive_reply
      only_sends_receive_cancel only_sends_same
      split: sum.splits kind.splits dest: only_sends_receive_request)

lemma only_sends_settle: "only_sends s (settle a out s)"
proof (cases "a < length (invocations s) \<and> \<not> inv_settled (invocations s ! a)")
  case True
  let ?s1 = "s\<lparr> invocations := (invocations s)[a := (invocations s ! a)\<lparr> inv_settled := True \<rparr>] \<rparr>"
  have d: "only_sends s ?s1" by (rule only_sends_same) simp_all
  from True only_sends_trans[OF d only_sends_on_settled] show ?thesis
    by (simp add: settle_def)
next
  case False
  then have "settle a out s = s" by (auto simp: settle_def)
  then show ?thesis by (simp add: only_sends_refl)
qed

subsection \<open>Batching of what is sent\<close>

lemma sends_Cons: "sends (m # msgs) s = sends msgs (RPCMultiplexer_send m s)"
  by (simp add: sends_def)

lemma sends_buffer:
  "messagesToSend (sends msgs s) = messagesToSend s @ msgs
   \<and> nextTick (sends msgs s) = nextTick s @
        (if messagesToSend s = [] \<and> msgs \<noteq> [] then [SendAccumulatedBound] else [])
   \<and> sent (sends msgs s) = sent s
   \<and> sends msgs s = s\<lparr> nextTick := nextTick (sends msgs s),
                          messagesToSend := messagesToSend (sends msgs s) \<rparr>"
proof (induction msgs arbitrary: s)
  case Nil
  then show ?case by (simp add: sends_def)
next
  case (Cons m msgs)
  from Cons.IH[of "RPCMultiplexer_send m s"] show ?case
    unfolding sends_Cons by (auto simp: RPCMultiplexer_send_def)
qed

lemma send_inv_new: "send_inv new_RPCManager"
  by (simp add: send_inv_def new_RPCManager_def)

lemma only_sends_send_inv:
  assumes "only_sends s s'" "send_inv s"
  shows "send_inv s'"
proof -
  from assms(1) obtain ms where "messagesToSend s' = messagesToSend s @ ms"
    "nextTick s' = nextTick s @
       (if messagesToSend s = [] \<and> ms \<noteq> [] then [SendAccumulatedBound] else [])"
    unfolding only_sends_def by blast
  with assms(2) show ?thesis
    by (cases "messagesToSend s = []"; cases "ms = []") (simp_all add: send_inv_def)
qed

lemma sends_only_sends: "only_sends s (sends msgs s)"
proof (induction msgs arbitrary: s)
  case Nil
  then show ?case by (simp add: sends_def only_sends_refl)
next
  case (Cons m msgs)
  from only_sends_trans[OF only_sends_send[of s m] Cons.IH[of "RPCMultiplexer_send m s"]]
  show ?case by (simp add: sends_Cons)
qed

subsection \<open>Draining what was received\<close>

lemma mux_receive_cases:
  obtains (thrown) e where
      "RPCMultiplexer_receiveOneMessage s = (popped s)\<lparr> uncaught := uncaught (popped s) @ [e] \<rparr>"
    | (returned) "only_sends (popped s) (RPCMultiplexer_receiveOneMessage s)"
proof (cases "RPCManager_receiveOneMessage
    (case messagesToReceive s of [] \<Rightarrow> None | m # _ \<Rightarrow> Some m) (popped s)")
  case (Inl e)
  then have "RPCMultiplexer_receiveOneMessage s = (popped s)\<lparr> uncaught := uncaught (popped s) @ [e] \<rparr>"
    by (simp add: RPCMultiplexer_receiveOneMessage_def popped_def Let_def)
  then show ?thesis by (rule thrown)
next
  case (Inr s2)
  then have "RPCMultiplexer_receiveOneMessage s = s2"
    by (simp add: RPCMultiplexer_receiveOneMessage_def popped_def Let_def)
  with only_sends_dispatch[OF Inr] show ?thesis by (simp add: returned)
qed

lemma only_sends_work: "only_sends s s' \<Longrightarrow> work s' \<le> work s + 1"
  by (auto simp: only_sends_def work_def split: if_splits)

lemma run_tick_work:
  assumes "nextTick s \<noteq> []"
  shows "work (run_tick s) < work s"
proof -
  from assms obtain t ts where nt: "nextTick s = t # ts" by (cases "nextTick s") auto
  show ?thesis
  proof (cases t)
    case SendAccumulatedBound
    with nt show ?thesis
      by (simp add: run_tick_def RPCMultiplexer_sendAccumulated_def work_def)
  next
    case ReceiveOneMessageBound
    let ?s0 = "s\<lparr> nextTick := ts \<rparr>"
    have rt: "run_tick s = RPCMultiplexer_receiveOneMessage ?s0"
      using nt ReceiveOneMessageBound by (simp add: run_tick_def)
    have p: "work (popped ?s0) + 2 \<le> work s"
      using nt by (cases "messagesToReceive s"; cases "tl (messagesToReceive s)")
        (simp_all add: popped_def work_def)
    have "work (RPCMultiplexer_receiveOneMessage ?s0) \<le> work (popped ?s0) + 1"
      by (cases ?s0 rule: mux_receive_cases) (auto simp: work_def dest: only_sends_work)
    with p rt show ?thesis by simp
  qed
qed

text \<open>
  The ticks run until the queue of \<^verbatim>\<open>process.nextTick\<close> is empty. Every tick lowers
  \<open>work\<close>, so they run out.
\<close>

function drain :: "state \<Rightarrow> state" where
  "drain s = (if nextTick s = [] then s else drain (run_tick s))"
  by pat_completeness auto
termination
  by (relation "measure work") (simp_all add: run_tick_work)

declare drain.simps [simp del]

lemma receive_inv_new: "receive_inv new_RPCManager"
  by (simp add: receive_inv_def new_RPCManager_def)

lemma arrive_inv:
  assumes "receive_inv s" "data \<noteq> []"
  shows "receive_inv (protocol_onMessage data s)"
    and "pipeline (protocol_onMessage data s) = pipeline s @ map Some data"
  using assms by (auto simp: receive_inv_def protocol_onMessage_def pipeline_def)

lemma only_sends_receive_side:
  assumes "only_sends s s'"
  shows "filter (\<lambda>t. t = ReceiveOneMessageBound) (nextTick s')
           = filter (\<lambda>t. t = ReceiveOneMessageBound) (nextTick s)"
    and "messagesToReceive s' = messagesToReceive s" and "delivered s' = delivered s"
  using assms by (auto simp: only_sends_def)

lemma mux_receive_side:
  "filter (\<lambda>t. t = ReceiveOneMessageBound) (nextTick (RPCMultiplexer_receiveOneMessage s))
     = filter (\<lambda>t. t = ReceiveOneMessageBound) (nextTick (popped s))
   \<and> messagesToReceive (RPCMultiplexer_receiveOneMessage s) = messagesToReceive (popped s)
   \<and> delivered (RPCMultiplexer_receiveOneMessage s) = delivered (popped s)"
  by (cases s rule: mux_receive_cases) (simp_all add: only_sends_receive_side)

lemma tick_inv:
  assumes "receive_inv s"
  shows "receive_inv (run_tick s) \<and> pipeline (run_tick s) = pipeline s"
proof (cases "nextTick s")
  case Nil
  with assms show ?thesis by (simp add: run_tick_def)
next
  case (Cons t ts)
  show ?thesis
  proof (cases t)
    case SendAccumulatedBound
    with Cons assms show ?thesis
      by (simp add: run_tick_def RPCMultiplexer_sendAccumulated_def receive_inv_def pipeline_def)
  next
    case ReceiveOneMessageBound
    let ?s0 = "s\<lparr> nextTick := ts \<rparr>"
    have rt: "run_tick s = RPCMultiplexer_receiveOneMessage ?s0"
      using Cons ReceiveOneMessageBound by (simp add: run_tick_def)
    from assms Cons ReceiveOneMessageBound
    have none: "filter (\<lambda>t. t = ReceiveOneMessageBound) ts = []"
      and ne: "messagesToReceive s \<noteq> []"
      by (auto simp: receive_inv_def split: if_splits)
    from ne obtain m rest where q: "messagesToReceive s = m # rest"
      by (cases "messagesToReceive s") auto
    have "receive_inv (popped ?s0)"
      using none q by (simp add: receive_inv_def popped_def)
    moreover have "pipeline (popped ?s0) = pipeline s"
      using q by (simp add: pipeline_def popped_def)
    ultimately show ?thesis
      using mux_receive_side[of ?s0] unfolding rt
      by (simp add: receive_inv_def pipeline_def)
  qed
qed

lemma send_inv_arrive: "send_inv s \<Longrightarrow> send_inv (protocol_onMessage data s)"
  by (auto simp: send_inv_def protocol_onMessage_def split: if_splits)

lemma send_inv_tick:
  assumes "send_inv s"
  shows "send_inv (run_tick s)"
proof (cases "nextTick s")
  case Nil
  with assms show ?thesis by (simp add: run_tick_def)
next
  case (Cons t ts)
  show ?thesis
  proof (cases t)
    case SendAccumulatedBound
    with Cons assms show ?thesis
      by (auto simp: run_tick_def RPCMultiplexer_sendAccumulated_def send_inv_def
          split: if_splits)
  next
    case ReceiveOneMessageBound
    let ?s0 = "s\<lparr> nextTick := ts \<rparr>"
    have rt: "run_tick s = RPCMultiplexer_receiveOneMessage ?s0"
      using Cons ReceiveOneMessageBound by (simp add: run_tick_def)
    have p: "send_inv (popped ?s0)"
      using assms Cons ReceiveOneMessageBound
      by (auto simp: send_inv_def popped_def split: if_splits)
    show ?thesis
      unfolding rt
    proof (cases ?s0 rule: mux_receive_cases)
      case (thrown e)
      with p show "send_inv (RPCMultiplexer_receiveOneMessage ?s0)"
        by (simp add: send_inv_def)
    next
      case returned
      then show "send_inv (RPCMultiplexer_receiveOneMessage ?s0)"
        using p by (rule only_sends_send_inv)
    qed
  qed
qed

lemma event_inv:
  assumes "receive_inv s" "e \<noteq> Arrive []"
  shows "receive_inv (run_event e s) \<and> pipeline (run_event e s) = pipeline s @ map Some (arrived [e])"
proof (cases e)
  case (Arrive data)
  with assms arrive_inv[of s data] show ?thesis by simp
next
  case Tick
  with assms tick_inv[of s] show ?thesis by simp
qed

lemma arrived_Cons: "arrived (e # es) = arrived [e] @ arrived es"
  by (cases e) simp_all

lemma events_inv:
  assumes "receive_inv s" "\<forall>e \<in> set es. e \<noteq> Arrive []"
  shows "receive_inv (run_events es s) \<and> pipeline (run_events es s) = pipeline s @ map Some (arrived es)"
  using assms
proof (induction es arbitrary: s)
  case Nil
  then show ?case by (simp add: run_events_def)
next
  case (Cons e es)
  from Cons.prems have e: "e \<noteq> Arrive []" and es: "\<forall>e \<in> set es. e \<noteq> Arrive []"
    by simp_all
  note h = event_inv[OF Cons.prems(1) e]
  have step: "run_events (e # es) s = run_events es (run_event e s)"
    by (simp add: run_events_def)
  from Cons.IH[OF h[THEN conjunct1] es] h[THEN conjunct2] show ?case
    unfolding step by (simp add: arrived_Cons[of e es])
qed

lemma drain_inv:
  assumes "receive_inv s"
  shows "receive_inv (drain s) \<and> pipeline (drain s) = pipeline s \<and> nextTick (drain s) = []"
  using assms
proof (induction s rule: drain.induct)
  case (1 s)
  show ?case
  proof (cases "nextTick s = []")
    case True
    with 1(2) show ?thesis by (simp add: drain.simps)
  next
    case False
    from tick_inv[OF 1(2)] 1(1)[OF False] False show ?thesis
      by (simp add: drain.simps[of s])
  qed
qed

lemma drained_queue_empty:
  assumes "receive_inv s" "nextTick s = []"
  shows "messagesToReceive s = []"
  using assms by (auto simp: receive_inv_def split: if_splits)

lemma tick_delivers_at_most_one:
  "delivered (run_tick s) = delivered s \<or> (\<exists>m. delivered (run_tick s) = delivered s @ [m])"
proof (cases "nextTick s")
  case Nil
  then show ?thesis by (simp add: run_tick_def)
next
  case (Cons t ts)
  show ?thesis
  proof (cases t)
    case SendAccumulatedBound
    with Cons show ?thesis by (simp add: run_tick_def RPCMultiplexer_sendAccumulated_def)
  next
    case ReceiveOneMessageBound
    with Cons have "run_tick s = RPCMultiplexer_receiveOneMessage (s\<lparr> nextTick := ts \<rparr>)"
      by (simp add: run_tick_def)
    with mux_receive_side[of "s\<lparr> nextTick := ts \<rparr>"] show ?thesis
      by (simp add: popped_def)
  qed
qed

text \<open>
  C5, as the program has it. Let batches arrive and ticks run in any order, from a state
  where the delivery is scheduled exactly when messages wait, and let no batch be empty.
  Then what was delivered followed by what still waits is, at every moment, what was
  there before followed by the messages of the batches in their order of arrival; once
  the ticks have run out, every message has been handed to \<^verbatim>\<open>_onMessage\<close>, one call for
  each, in that order, and nothing waits. No tick makes more than one call of
  \<^verbatim>\<open>_onMessage\<close>.
\<close>

theorem C5_messages_delivered_in_order:
  assumes "receive_inv s" and "\<forall>e \<in> set es. e \<noteq> Arrive []"
  shows "delivered (run_events es s) @ map Some (messagesToReceive (run_events es s))
           = delivered s @ map Some (messagesToReceive s @ arrived es)
       \<and> delivered (drain (run_events es s))
           = delivered s @ map Some (messagesToReceive s @ arrived es)
       \<and> messagesToReceive (drain (run_events es s)) = []
       \<and> nextTick (drain (run_events es s)) = []
       \<and> (\<forall>t. delivered (run_tick t) = delivered t
               \<or> (\<exists>m. delivered (run_tick t) = delivered t @ [m]))"
proof -
  note e = events_inv[OF assms]
  note d = drain_inv[OF e[THEN conjunct1]]
  have q: "messagesToReceive (drain (run_events es s)) = []"
    by (rule drained_queue_empty[OF d[THEN conjunct1] d[THEN conjunct2, THEN conjunct2]])
  have 1: "delivered (run_events es s) @ map Some (messagesToReceive (run_events es s))
           = delivered s @ map Some (messagesToReceive s @ arrived es)"
    using e[THEN conjunct2] by (simp add: pipeline_def)
  have "pipeline (drain (run_events es s)) = pipeline s @ map Some (arrived es)"
    using d[THEN conjunct2, THEN conjunct1] e[THEN conjunct2] by simp
  then have 2: "delivered (drain (run_events es s))
           = delivered s @ map Some (messagesToReceive s @ arrived es)"
    by (simp add: pipeline_def q)
  from 1 2 q d tick_delivers_at_most_one show ?thesis by blast
qed

theorem C5_messages_delivered_witness:
  "delivered (drain (run_events [Arrive [''a'', ''b''], Tick, Arrive [''c'']] new_RPCManager))
     = [Some ''a'', Some ''b'', Some ''c'']"
proof -
  have 1: "\<forall>e \<in> set [Arrive [''a'', ''b''], Tick, Arrive [''c'']]. e \<noteq> Arrive []"
    by simp
  from C5_messages_delivered_in_order[OF receive_inv_new 1] show ?thesis
    by (simp add: new_RPCManager_def)
qed

lemma parse_undefined: "parse ''undefined'' = Inl SyntaxError"
  by code_simp

text \<open>
  The claim as stated, for every batch, fails for the empty batch: its arrival schedules
  a delivery, and the tick calls \<^verbatim>\<open>_onMessage\<close> once, with \<^verbatim>\<open>undefined\<close>, which the
  parser refuses. For a batch of no messages there is one call.
\<close>

theorem C5_empty_batch_counterexample:
  "delivered (run_tick (protocol_onMessage [] new_RPCManager)) = [None]
   \<and> uncaught (run_tick (protocol_onMessage [] new_RPCManager)) = [SyntaxError]
   \<and> nextTick (run_tick (protocol_onMessage [] new_RPCManager)) = []"
  by (simp add: protocol_onMessage_def new_RPCManager_def run_tick_def
      RPCMultiplexer_receiveOneMessage_def RPCManager_receiveOneMessage_def parse_undefined)

subsection \<open>The callbacks of an invocation\<close>


lemma string_of_int_42: "string_of_int 42 = ''42''"
  by code_simp

subsection \<open>Reading back what the serializer wrote\<close>

lemma escape_plain: "plain_char c \<Longrightarrow> escape_char c = [c]"
  by (auto simp: plain_char_def escape_char_def code_def)

lemma quote_plain: "plain s \<Longrightarrow> quote s = CHR 0x22 # s @ [CHR 0x22]"
proof -
  assume "plain s"
  then have "concat (map escape_char s) = s"
    by (induction s) (simp_all add: plain_def escape_plain)
  then show ?thesis by (simp add: quote_def)
qed

lemma code_less_256: "code c < 256"
  by (simp add: code_def)

lemma hex_val_hex_digit: "d < 16 \<Longrightarrow> hex_val (hex_digit d) = Some d"
proof -
  assume "d < 16"
  then consider "d < 10" | "10 \<le> d \<and> d < 16" by linarith
  then show ?thesis
  proof cases
    case 1
    then show ?thesis by (simp add: hex_val_def hex_digit_def is_digit_def code_def)
  next
    case 2
    then show ?thesis by (simp add: hex_val_def hex_digit_def is_digit_def code_def)
  qed
qed

lemma hex_val_zero: "hex_val (CHR ''0'') = Some 0"
  by (simp add: hex_val_def is_digit_def code_def)

lemma char_of_code: "char_of (code c) = c"
  by (simp add: code_def)

lemma lex_escape_char:
  assumes "\<not> plain_char c"
  shows "\<exists>e es. escape_char c = CHR 0x5C # e # es \<and> lex_escape (e # es @ rest) = Inr (c, rest)"
proof -
  consider (q) "c = CHR 0x22" | (bs) "c = CHR 0x5C" | (b) "c = CHR 0x08" | (f) "c = CHR 0x0C"
    | (n) "c = CHR 0x0A" | (r) "c = CHR 0x0D" | (t) "c = CHR 0x09"
    | (u) "c \<noteq> CHR 0x22" "c \<noteq> CHR 0x5C" "c \<noteq> CHR 0x08" "c \<noteq> CHR 0x0C" "c \<noteq> CHR 0x0A"
          "c \<noteq> CHR 0x0D" "c \<noteq> CHR 0x09" "code c < 32"
    using assms unfolding plain_char_def by (meson not_le)
  then show ?thesis
  proof cases
    case u
    have d1: "code c div 16 < 16" and d2: "code c mod 16 < 16" using u(8) by simp_all
    have h: "hex4 (CHR ''0'') (CHR ''0'') (hex_digit (code c div 16)) (hex_digit (code c mod 16))
             = Some (code c)"
      by (simp add: hex4_def hex_val_zero hex_val_hex_digit[OF d1] hex_val_hex_digit[OF d2])
    have "escape_char c = CHR 0x5C # CHR ''u'' #
            [CHR ''0'', CHR ''0'', hex_digit (code c div 16), hex_digit (code c mod 16)]"
      using u by (simp add: escape_char_def)
    moreover have "lex_escape (CHR ''u'' #
            [CHR ''0'', CHR ''0'', hex_digit (code c div 16), hex_digit (code c mod 16)] @ rest)
          = Inr (c, rest)"
      using h code_less_256[of c] by (simp add: lex_escape_def char_of_code)
    ultimately show ?thesis by blast
  qed (simp_all add: escape_char_def lex_escape_def unescape_def)
qed

lemma lex_string_escaped:
  "lex_string (concat (map escape_char s) @ CHR 0x22 # rest) acc = Inr (rev acc @ s, rest)"
proof (induction s arbitrary: acc)
  case Nil
  then show ?case by (simp add: lex_string.simps(2))
next
  case (Cons c s)
  show ?case
  proof (cases "plain_char c")
    case True
    then have "lex_string (c # concat (map escape_char s) @ CHR 0x22 # rest) acc
               = lex_string (concat (map escape_char s) @ CHR 0x22 # rest) (c # acc)"
      by (simp add: lex_string.simps(2) plain_char_def)
    with True Cons.IH[of "c # acc"] show ?thesis by (simp add: escape_plain)
  next
    case False
    from lex_escape_char[OF False, of "concat (map escape_char s) @ CHR 0x22 # rest"]
    obtain e es where e: "escape_char c = CHR 0x5C # e # es"
      and l: "lex_escape (e # es @ concat (map escape_char s) @ CHR 0x22 # rest)
              = Inr (c, concat (map escape_char s) @ CHR 0x22 # rest)"
      by blast
    have "lex_string (CHR 0x5C # e # es @ concat (map escape_char s) @ CHR 0x22 # rest) acc
          = lex_string (concat (map escape_char s) @ CHR 0x22 # rest) (c # acc)"
      by (simp add: lex_string.simps(2) l)
    with Cons.IH[of "c # acc"] show ?thesis by (simp add: e)
  qed
qed

lemma lex_quote: "lex (quote s @ rest) = tok_cons (TStr s) (lex rest)"
proof -
  have "lex (CHR 0x22 # concat (map escape_char s) @ CHR 0x22 # rest)
        = tok_cons (TStr s) (lex rest)"
    by (simp add: lex.simps(2) is_space_def lex_string_escaped)
  then show ?thesis by (simp add: quote_def)
qed

lemma is_digit_digit_char: "d < 10 \<Longrightarrow> is_digit (digit_char d)"
  by (simp add: is_digit_def code_digit_char)

lemma string_of_nat_digits: "list_all is_digit (string_of_nat n)"
proof (induction n rule: string_of_nat.induct)
  case (1 n)
  show ?case
  proof (cases "n < 10")
    case True
    then show ?thesis by (simp add: string_of_nat_digit is_digit_digit_char)
  next
    case False
    then have "string_of_nat n = string_of_nat (n div 10) @ [digit_char (n mod 10)]"
      by (subst string_of_nat.simps) simp
    with 1[OF False] show ?thesis by (simp add: is_digit_digit_char)
  qed
qed

lemma string_of_nat_nonempty: "string_of_nat n \<noteq> []"
  by (subst string_of_nat.simps) simp

lemma digit_char_zero: "d < 10 \<Longrightarrow> digit_char d = CHR ''0'' \<Longrightarrow> d = 0"
proof -
  assume d: "d < 10" and z: "digit_char d = CHR ''0''"
  from z have "code (digit_char d) = code (CHR ''0'')" by simp
  with d show ?thesis by (simp add: code_digit_char) (simp add: code_def)
qed

lemma string_of_nat_leading: "hd (string_of_nat n) = CHR ''0'' \<Longrightarrow> n = 0"
proof (induction n rule: string_of_nat.induct)
  case (1 n)
  show ?case
  proof (cases "n < 10")
    case True
    with 1(2) show ?thesis by (simp add: string_of_nat_digit digit_char_zero)
  next
    case False
    then have "string_of_nat n = string_of_nat (n div 10) @ [digit_char (n mod 10)]"
      by (subst string_of_nat.simps) simp
    with 1(2) have "hd (string_of_nat (n div 10)) = CHR ''0''"
      by (simp add: string_of_nat_nonempty)
    from 1(1)[OF False this] False show ?thesis by simp
  qed
qed

lemma string_of_nat_no_leading_zero:
  "\<not> (hd (string_of_nat n) = CHR ''0'' \<and> tl (string_of_nat n) \<noteq> [])"
proof
  assume a: "hd (string_of_nat n) = CHR ''0'' \<and> tl (string_of_nat n) \<noteq> []"
  then have "n = 0" by (simp add: string_of_nat_leading)
  with a show False by (simp add: string_of_nat_digit)
qed

lemma delimited_not_digit:
  assumes "delimited rest"
  shows "list_all is_digit ds \<Longrightarrow> takeWhile is_digit (ds @ rest) = ds"
    and "list_all is_digit ds \<Longrightarrow> dropWhile is_digit (ds @ rest) = rest"
    and "\<not> (case rest of [] \<Rightarrow> False | r # _ \<Rightarrow> r = CHR ''.'' \<or> r = CHR ''e'' \<or> r = CHR ''E'')"
proof -
  from assms have tw: "takeWhile is_digit rest = []" and dw: "dropWhile is_digit rest = rest"
    by (auto simp: delimited_def is_digit_def code_def split: list.splits)
  show "takeWhile is_digit (ds @ rest) = ds" if "list_all is_digit ds"
  proof -
    from that have "takeWhile is_digit (ds @ rest) = ds @ takeWhile is_digit rest"
      by (intro takeWhile_append2) (simp add: list_all_iff)
    with tw show ?thesis by simp
  qed
  show "dropWhile is_digit (ds @ rest) = rest" if "list_all is_digit ds"
  proof -
    from that have "dropWhile is_digit (ds @ rest) = dropWhile is_digit rest"
      by (intro dropWhile_append2) (simp add: list_all_iff)
    with dw show ?thesis by simp
  qed
  show "\<not> (case rest of [] \<Rightarrow> False | r # _ \<Rightarrow> r = CHR ''.'' \<or> r = CHR ''e'' \<or> r = CHR ''E'')"
    using assms by (auto simp: delimited_def split: list.splits)
qed

lemma lex_number_nat:
  assumes "delimited rest" "int n \<le> 9007199254740992"
  shows "lex_number (string_of_nat n @ rest) = Inr (int n, rest)"
proof -
  let ?ds = "string_of_nat n"
  obtain d ds' where c: "?ds = d # ds'" using string_of_nat_nonempty[of n] by (cases ?ds) auto
  have dig: "is_digit d" using string_of_nat_digits[of n] c by simp
  then have nm: "d \<noteq> CHR ''-''" by (auto simp: is_digit_def code_def)
  have tw: "takeWhile is_digit (?ds @ rest) = ?ds" and dw: "dropWhile is_digit (?ds @ rest) = rest"
    using delimited_not_digit(1,2)[OF assms(1) string_of_nat_digits[of n]] by simp_all
  have lz: "\<not> (hd ?ds = CHR ''0'' \<and> tl ?ds \<noteq> [])" by (rule string_of_nat_no_leading_zero)
  have neg: "(case ?ds @ rest of [] \<Rightarrow> False | c # _ \<Rightarrow> c = CHR ''-'') = False"
    using c nm by simp
  show ?thesis
    unfolding lex_number_def Let_def neg
    using tw dw lz delimited_not_digit(3)[OF assms(1)] assms(2) string_of_nat_nonempty[of n]
    by (simp add: int_of_digits_string_of_nat)
qed

lemma lex_number_int:
  assumes "delimited rest" "\<bar>i\<bar> \<le> 9007199254740992"
  shows "lex_number (string_of_int i @ rest) = Inr (i, rest)"
proof (cases "i < 0")
  case False
  with assms lex_number_nat[of rest "nat i"] show ?thesis
    by (simp add: string_of_int_def)
next
  case True
  let ?ds = "string_of_nat (nat (- i))"
  have b: "int (nat (- i)) \<le> 9007199254740992" using True assms(2) by simp
  have tw: "takeWhile is_digit (?ds @ rest) = ?ds" and dw: "dropWhile is_digit (?ds @ rest) = rest"
    using delimited_not_digit(1,2)[OF assms(1) string_of_nat_digits[of "nat (- i)"]] by simp_all
  have lz: "\<not> (hd ?ds = CHR ''0'' \<and> tl ?ds \<noteq> [])" by (rule string_of_nat_no_leading_zero)
  have "lex_number (CHR ''-'' # ?ds @ rest) = Inr (i, rest)"
    unfolding lex_number_def Let_def
    using tw dw lz delimited_not_digit(3)[OF assms(1)] b string_of_nat_nonempty[of "nat (- i)"] True
    by (simp add: int_of_digits_string_of_nat)
  with True show ?thesis by (simp add: string_of_int_def)
qed

lemma string_of_int_head:
  "\<exists>c cs. string_of_int i = c # cs \<and> (c = CHR ''-'' \<or> is_digit c)"
proof (cases "i < 0")
  case True
  then show ?thesis by (simp add: string_of_int_def)
next
  case False
  obtain d ds where c: "string_of_nat (nat i) = d # ds"
    using string_of_nat_nonempty[of "nat i"] by (cases "string_of_nat (nat i)") auto
  with string_of_nat_digits[of "nat i"] False show ?thesis
    by (simp add: string_of_int_def)
qed

lemma number_start:
  assumes "c = CHR ''-'' \<or> is_digit c"
  shows "lex (c # cs) =
           (case lex_number (c # cs) of Inl e \<Rightarrow> Inl e
            | Inr (i, rest) \<Rightarrow> tok_cons (TNum i) (lex rest))"
proof -
  from assms have "\<not> is_space c" "c \<noteq> CHR ''{''" "c \<noteq> CHR ''}''" "c \<noteq> CHR ''[''"
    "c \<noteq> CHR '']''" "c \<noteq> CHR '',''" "c \<noteq> CHR '':''" "c \<noteq> CHR 0x22"
    by (auto simp: is_digit_def is_space_def code_def)
  with assms show ?thesis by (simp add: lex.simps(2))
qed

lemma lex_number_text:
  assumes "delimited rest" "\<bar>i\<bar> \<le> 9007199254740992"
  shows "lex (string_of_int i @ rest) = tok_cons (TNum i) (lex rest)"
proof -
  from string_of_int_head[of i] obtain c cs where c: "string_of_int i = c # cs"
    and h: "c = CHR ''-'' \<or> is_digit c" by blast
  have "lex (c # cs @ rest) =
           (case lex_number (c # cs @ rest) of Inl e \<Rightarrow> Inl e
            | Inr (i, rest) \<Rightarrow> tok_cons (TNum i) (lex rest))"
    by (rule number_start[OF h])
  with lex_number_int[OF assms] c show ?thesis by simp
qed

lemma lex_literals:
  "lex (CHR ''n'' # CHR ''u'' # CHR ''l'' # CHR ''l'' # rest) = tok_cons TNull (lex rest)"
  "lex (CHR ''t'' # CHR ''r'' # CHR ''u'' # CHR ''e'' # rest) = tok_cons TTrue (lex rest)"
  "lex (CHR ''f'' # CHR ''a'' # CHR ''l'' # CHR ''s'' # CHR ''e'' # rest)
     = tok_cons TFalse (lex rest)"
  by (simp_all add: lex.simps(2) is_space_def is_digit_def code_def)

lemma lex_punctuation:
  "lex (CHR ''{'' # rest) = tok_cons TLBrace (lex rest)"
  "lex (CHR ''}'' # rest) = tok_cons TRBrace (lex rest)"
  "lex (CHR ''['' # rest) = tok_cons TLBrack (lex rest)"
  "lex (CHR '']'' # rest) = tok_cons TRBrack (lex rest)"
  "lex (CHR '','' # rest) = tok_cons TComma (lex rest)"
  "lex (CHR '':'' # rest) = tok_cons TColon (lex rest)"
  by (simp_all add: lex.simps(2) is_space_def)

lemma tok_app_simps:
  "tok_app [] r = r"
  "tok_app (t # ts) r = tok_cons t (tok_app ts r)"
  "tok_app (ts @ us) r = tok_app ts (tok_app us r)"
  by (cases r; simp add: tok_app_def tok_cons_def)+

lemma delimited_simps:
  "delimited []" "delimited (CHR '','' # cs)" "delimited (CHR '']'' # cs)"
  "delimited (CHR ''}'' # cs)"
  by (simp_all add: delimited_def)

lemma lex_stringify:
  "representable v \<longrightarrow>
     (\<forall>rest. delimited rest \<longrightarrow> lex (stringify v @ rest) = tok_app (tokens v) (lex rest))"
  "representable_elems xs \<longrightarrow>
     (\<forall>rest. delimited rest \<longrightarrow>
        lex (stringify_elems xs @ rest) = tok_app (tokens_elems xs) (lex rest))"
  "representable_members kvs \<longrightarrow>
     (\<forall>rest. delimited rest \<longrightarrow>
        lex (stringify_members kvs @ rest) = tok_app (tokens_members kvs) (lex rest))"
proof (induction v and xs and kvs rule: tokens_tokens_elems_tokens_members.induct)
  case 1
  show ?case by (simp add: lex_literals tok_app_simps(1,2))
next
  case (2 b)
  show ?case by (cases b) (simp_all add: lex_literals tok_app_simps(1,2))
next
  case (3 i)
  show ?case by (simp add: lex_number_text tok_app_simps(1,2))
next
  case (4 s)
  show ?case by (simp add: lex_quote tok_app_simps(1,2))
next
  case (5 xs)
  show ?case
  proof (intro impI allI)
    fix rest
    assume r: "representable (JArr xs)" and d: "delimited rest"
    from r 5 have "lex (stringify_elems xs @ CHR '']'' # rest)
        = tok_app (tokens_elems xs) (lex (CHR '']'' # rest))"
      by (simp add: delimited_simps)
    then show "lex (stringify (JArr xs) @ rest) = tok_app (tokens (JArr xs)) (lex rest)"
      by (simp add: lex_punctuation tok_app_simps)
  qed
next
  case (6 kvs)
  show ?case
  proof (intro impI allI)
    fix rest
    assume r: "representable (JObj kvs)" and d: "delimited rest"
    from r 6 have "lex (stringify_members kvs @ CHR ''}'' # rest)
        = tok_app (tokens_members kvs) (lex (CHR ''}'' # rest))"
      by (simp add: delimited_simps)
    then show "lex (stringify (JObj kvs) @ rest) = tok_app (tokens (JObj kvs)) (lex rest)"
      by (simp add: lex_punctuation tok_app_simps)
  qed
next
  case 7
  show ?case by (simp add: tok_app_simps(1))
next
  case (8 x)
  then show ?case by simp
next
  case (9 x y ys)
  show ?case
  proof (intro impI allI)
    fix rest
    assume r: "representable_elems (x # y # ys)" and d: "delimited rest"
    from r have rx: "representable x" and rr: "representable_elems (y # ys)" by simp_all
    from 9(1) rx have "lex (stringify x @ CHR '','' # stringify_elems (y # ys) @ rest)
        = tok_app (tokens x) (lex (CHR '','' # stringify_elems (y # ys) @ rest))"
      by (simp add: delimited_simps)
    moreover from 9(2) rr d have "lex (stringify_elems (y # ys) @ rest)
        = tok_app (tokens_elems (y # ys)) (lex rest)"
      by simp
    ultimately show "lex (stringify_elems (x # y # ys) @ rest)
        = tok_app (tokens_elems (x # y # ys)) (lex rest)"
      by (simp add: lex_punctuation tok_app_simps)
  qed
next
  case 10
  show ?case by (simp add: tok_app_simps(1))
next
  case (11 k v)
  show ?case
  proof (intro impI allI)
    fix rest
    assume r: "representable_members [(k, v)]" and d: "delimited rest"
    from 11 r d have "lex (stringify v @ rest) = tok_app (tokens v) (lex rest)" by simp
    then show "lex (stringify_members [(k, v)] @ rest)
        = tok_app (tokens_members [(k, v)]) (lex rest)"
      by (simp add: lex_quote lex_punctuation tok_app_simps)
  qed
next
  case (12 k v m ms)
  show ?case
  proof (intro impI allI)
    fix rest
    assume r: "representable_members ((k, v) # m # ms)" and d: "delimited rest"
    from r have rv: "representable v" and rr: "representable_members (m # ms)" by simp_all
    from 12(1) rv have "lex (stringify v @ CHR '','' # stringify_members (m # ms) @ rest)
        = tok_app (tokens v) (lex (CHR '','' # stringify_members (m # ms) @ rest))"
      by (simp add: delimited_simps)
    moreover from 12(2) rr d have "lex (stringify_members (m # ms) @ rest)
        = tok_app (tokens_members (m # ms)) (lex rest)"
      by simp
    ultimately show "lex (stringify_members ((k, v) # m # ms) @ rest)
        = tok_app (tokens_members ((k, v) # m # ms)) (lex rest)"
      by (simp add: lex_quote lex_punctuation tok_app_simps)
  qed
qed

lemma run_append: "run (ts @ us) c = Option.bind (run ts c) (run us)"
  by (induction ts arbitrary: c) (simp_all split: option.splits)

lemma put_fresh: "k \<notin> fst ` set kvs \<Longrightarrow> put k v kvs = kvs @ [(k, v)]"
  by (induction kvs) auto

lemma tokens_head: "\<exists>t ts. tokens v = t # ts \<and> t \<noteq> TRBrack \<and> start t st = step t (MValue, st)"
  by (cases v) simp_all

lemma tokens_elems_head:
  assumes "xs \<noteq> []"
  shows "\<exists>t ts. tokens_elems xs = t # ts \<and> t \<noteq> TRBrack"
proof -
  from assms obtain x xs' where x: "xs = x # xs'" by (cases xs) auto
  from tokens_head[of x] obtain t ts where "tokens x = t # ts" "t \<noteq> TRBrack" by blast
  with x show ?thesis by (cases xs') simp_all
qed

lemma run_array_first:
  assumes "xs \<noteq> []"
  shows "run (tokens_elems xs @ us) (MArrFirst, FArr es # st)
         = run (tokens_elems xs @ us) (MValue, FArr es # st)"
proof -
  from tokens_elems_head[OF assms] obtain t ts where "tokens_elems xs = t # ts" "t \<noteq> TRBrack"
    by blast
  then show ?thesis by simp
qed

lemma run_tokens:
  "representable v \<longrightarrow> (\<forall>st. run (tokens v) (MValue, st) = feed v st)"
  "representable_elems xs \<longrightarrow> xs \<noteq> [] \<longrightarrow>
     (\<forall>es st. run (tokens_elems xs) (MValue, FArr es # st) = Some (MArrMore, FArr (es @ xs) # st))"
  "representable_members kvs \<longrightarrow> kvs \<noteq> [] \<longrightarrow>
     (\<forall>acc st m. (m = MObjFirst \<or> m = MObjKey) \<longrightarrow> distinct (map fst (acc @ kvs)) \<longrightarrow>
        run (tokens_members kvs) (m, FObj acc # st) = Some (MObjMore, FObj (acc @ kvs) # st))"
proof (induction v and xs and kvs rule: tokens_tokens_elems_tokens_members.induct)
  case 1
  show ?case by (simp split: option.splits)
next
  case (2 b)
  show ?case by (cases b) (simp_all split: option.splits)
next
  case (3 i)
  show ?case by (simp split: option.splits)
next
  case (4 s)
  show ?case by (simp split: option.splits)
next
  case (5 xs)
  show ?case
  proof (intro impI allI)
    fix st
    assume r: "representable (JArr xs)"
    show "run (tokens (JArr xs)) (MValue, st) = feed (JArr xs) st"
    proof (cases "xs = []")
      case True
      then show ?thesis by (simp split: option.splits)
    next
      case False
      from 5 r False
      have e: "run (tokens_elems xs) (MValue, FArr [] # st) = Some (MArrMore, FArr xs # st)"
        by simp
      have "run (tokens (JArr xs)) (MValue, st)
            = run (tokens_elems xs @ [TRBrack]) (MArrFirst, FArr [] # st)"
        by simp
      also have "\<dots> = run (tokens_elems xs @ [TRBrack]) (MValue, FArr [] # st)"
        by (rule run_array_first[OF False])
      also have "\<dots> = feed (JArr xs) st"
        by (simp add: run_append e split: option.splits)
      finally show ?thesis .
    qed
  qed
next
  case (6 kvs)
  show ?case
  proof (intro impI allI)
    fix st
    assume r: "representable (JObj kvs)"
    show "run (tokens (JObj kvs)) (MValue, st) = feed (JObj kvs) st"
    proof (cases "kvs = []")
      case True
      then show ?thesis by (simp split: option.splits)
    next
      case False
      from 6 r False
      have e: "run (tokens_members kvs) (MObjFirst, FObj [] # st) = Some (MObjMore, FObj kvs # st)"
        by simp
      have "run (tokens (JObj kvs)) (MValue, st)
            = run (tokens_members kvs @ [TRBrace]) (MObjFirst, FObj [] # st)"
        by simp
      also have "\<dots> = feed (JObj kvs) st"
        by (simp add: run_append e split: option.splits)
      finally show ?thesis .
    qed
  qed
next
  case 7
  show ?case by simp
next
  case (8 x)
  then show ?case by simp
next
  case (9 x y ys)
  show ?case
  proof (intro impI allI)
    fix es st
    assume r: "representable_elems (x # y # ys)"
    from r 9(1) have x: "run (tokens x) (MValue, FArr es # st) = Some (MArrMore, FArr (es @ [x]) # st)"
      by simp
    from r 9(2) have ys: "run (tokens_elems (y # ys)) (MValue, FArr (es @ [x]) # st)
        = Some (MArrMore, FArr ((es @ [x]) @ y # ys) # st)"
      by simp
    show "run (tokens_elems (x # y # ys)) (MValue, FArr es # st)
          = Some (MArrMore, FArr (es @ x # y # ys) # st)"
      using ys by (simp add: run_append x)
  qed
next
  case 10
  show ?case by simp
next
  case (11 k v)
  show ?case
  proof (intro impI allI)
    fix acc st m
    assume r: "representable_members [(k, v)]" and m: "m = MObjFirst \<or> m = MObjKey"
      and d: "distinct (map fst (acc @ [(k, v)]))"
    from d have f: "put k v acc = acc @ [(k, v)]" by (intro put_fresh) auto
    from r 11 have v: "run (tokens v) (MValue, FKey acc k # st) = Some (MObjMore, FObj (put k v acc) # st)"
      by simp
    from m show "run (tokens_members [(k, v)]) (m, FObj acc # st)
          = Some (MObjMore, FObj (acc @ [(k, v)]) # st)"
      by (auto simp: v f)
  qed
next
  case (12 k v e es)
  show ?case
  proof (intro impI allI)
    fix acc st m
    assume r: "representable_members ((k, v) # e # es)" and m: "m = MObjFirst \<or> m = MObjKey"
      and d: "distinct (map fst (acc @ (k, v) # e # es))"
    from d have f: "put k v acc = acc @ [(k, v)]" by (intro put_fresh) auto
    from d have d': "distinct (map fst ((acc @ [(k, v)]) @ e # es))" by simp
    from r 12(1)
    have v: "run (tokens v) (MValue, FKey acc k # st) = Some (MObjMore, FObj (acc @ [(k, v)]) # st)"
      by (simp add: f)
    from r have rr: "representable_members (e # es)" by simp
    from 12(2) rr d'
    have rest: "run (tokens_members (e # es)) (MObjKey, FObj (acc @ [(k, v)]) # st)
        = Some (MObjMore, FObj ((acc @ [(k, v)]) @ e # es) # st)"
      by blast
    from m show "run (tokens_members ((k, v) # e # es)) (m, FObj acc # st)
          = Some (MObjMore, FObj (acc @ (k, v) # e # es) # st)"
      using rest by (auto simp: run_append v)
  qed
qed

lemma parse_stringify:
  assumes "representable v"
  shows "parse (stringify v) = Inr v"
proof -
  from lex_stringify(1)[of v] assms
  have "delimited [] \<longrightarrow> lex (stringify v @ []) = tok_app (tokens v) (lex [])"
    by blast
  then have l: "lex (stringify v) = Inr (tokens v)"
    by (simp add: tok_app_def delimited_simps)
  from run_tokens(1)[of v] assms have "run (tokens v) (MValue, []) = Some (MDone v, [])"
    by simp
  with l show ?thesis by (simp add: parse_def)
qed

lemma plain_keys: "plain ''req''" "plain ''rpcId''" "plain ''method''" "plain ''args''"
  by (simp_all add: plain_def plain_char_def code_def)

lemma request_is_stringify:
  assumes "plain req" "plain rpcId" "plain method"
  shows "MessageFactory_request req rpcId method args
         = stringify (JObj [(''req'', JStr req), (''rpcId'', JStr rpcId),
                            (''method'', JStr method), (''args'', JArr args)])"
  by (simp add: MessageFactory_request_def quote_plain[OF assms(1)] quote_plain[OF assms(2)]
      quote_plain[OF assms(3)] quote_plain[OF plain_keys(1)] quote_plain[OF plain_keys(2)]
      quote_plain[OF plain_keys(3)] quote_plain[OF plain_keys(4)])

lemma plain_char_digit: "is_digit c \<Longrightarrow> plain_char c"
  by (auto simp: is_digit_def plain_char_def code_def)

lemma plain_string_of_nat: "plain (string_of_nat n)"
  using string_of_nat_digits[of n]
  by (auto simp: plain_def list_all_iff intro: plain_char_digit)

text \<open>
  C2, as the program has it. \<^verbatim>\<open>MessageFactory.request\<close> puts the id, the capability id
  and the method name between quotes as they are (line 190). For strings without a double
  quote, a backslash or a control character (every id of \<^verbatim>\<open>callOnRemote\<close> is one, being
  decimal digits) and for every list of arguments that are values of JavaScript
  (\<open>representable\<close>), the text it writes parses to the
  message with these four fields; the message takes the request branch, and the dispatch
  hands the handler the capability id, the method name and the arguments that were
  encoded.
\<close>

theorem C2_request_round_trip:
  assumes "plain req" and "plain rpcId" and "plain method" and "representable_elems args"
    and "msg = JObj [(''req'', JStr req), (''rpcId'', JStr rpcId), (''method'', JStr method),
                     (''args'', JArr args)]"
  shows "parse (MessageFactory_request req rpcId method args) = Inr msg
       \<and> classify msg = Inr KRequest
       \<and> own_prop msg ''req'' = Some (JStr req)
       \<and> own_prop msg ''rpcId'' = Some (JStr rpcId)
       \<and> own_prop msg ''method'' = Some (JStr method)
       \<and> own_prop msg ''args'' = Some (JArr args)
       \<and> RPCManager_receiveOneMessage (Some (MessageFactory_request req rpcId method args)) s
           = receive_request msg s
       \<and> plain (string_of_nat n)"
proof -
  have r: "representable msg"
    using assms(4) by (simp add: assms(5))
  have p: "parse (MessageFactory_request req rpcId method args) = Inr msg"
    using parse_stringify[OF r] request_is_stringify[OF assms(1,2,3), of args]
    by (simp add: assms(5))
  have c: "classify msg = Inr KRequest"
    by (simp add: assms(5) classify_def truthy_def)
  have d: "RPCManager_receiveOneMessage (Some (MessageFactory_request req rpcId method args)) s
           = receive_request msg s"
    by (simp add: RPCManager_receiveOneMessage_def p c)
  from p c d plain_string_of_nat[of n] show ?thesis
    by (simp add: assms(5))
qed

theorem C2_request_round_trip_witness:
  "parse (MessageFactory_request ''1'' ''svc.foo'' ''bar'' [JNum 1, JNum 2])
   = Inr (JObj [(''req'', JStr ''1''), (''rpcId'', JStr ''svc.foo''), (''method'', JStr ''bar''),
                (''args'', JArr [JNum 1, JNum 2])])"
proof -
  have p: "plain ''1''" "plain ''svc.foo''" "plain ''bar''"
    by (simp_all add: plain_def plain_char_def code_def)
  have a: "representable_elems [JNum 1, JNum 2]" by simp
  from C2_request_round_trip[OF p a refl] show ?thesis by blast
qed

text \<open>
  The claim as stated, for every capability id, fails for one that holds a double quote:
  the text that the encoder writes is not JSON, and decoding it throws.
\<close>

theorem C2_request_round_trip_counterexample:
  \<open>parse (MessageFactory_request ''1'' ''a"b'' ''bar'' []) = Inl SyntaxError\<close>
  by code_simp

subsection \<open>The sends of one step, and the flush\<close>

lemma parse_request_2:
  \<open>parse ''{"req":"2","rpcId":"svc.foo","method":"bar","args":[]}''
   = Inr (JObj [(''req'', JStr ''2''), (''rpcId'', JStr ''svc.foo''), (''method'', JStr ''bar''),
                (''args'', JArr [])])\<close>
  by code_simp

lemma tick_quiet:
  assumes "case nextTick t of SendAccumulatedBound # ts \<Rightarrow> False | _ \<Rightarrow> True"
  shows "sent (run_tick t) = sent t
       \<and> (\<exists>later. messagesToSend (run_tick t) = messagesToSend t @ later)"
proof (cases "nextTick t")
  case Nil
  with assms show ?thesis by (simp add: run_tick_def)
next
  case (Cons x ts)
  with assms have x: "x = ReceiveOneMessageBound" by (cases x) simp_all
  let ?s0 = "t\<lparr> nextTick := ts \<rparr>"
  have rt: "run_tick t = RPCMultiplexer_receiveOneMessage ?s0"
    using Cons x by (simp add: run_tick_def)
  have p: "sent (popped ?s0) = sent t" "messagesToSend (popped ?s0) = messagesToSend t"
    by (simp_all add: popped_def)
  have "sent (RPCMultiplexer_receiveOneMessage ?s0) = sent t
       \<and> (\<exists>later. messagesToSend (RPCMultiplexer_receiveOneMessage ?s0) = messagesToSend t @ later)"
  proof (cases ?s0 rule: mux_receive_cases)
    case (thrown e)
    then show ?thesis using p by simp
  next
    case returned
    then show ?thesis using p unfolding only_sends_def by auto
  qed
  with rt show ?thesis by simp
qed

lemma quiet_run:
  assumes "quiet es t"
  shows "sent (run_events es t) = sent t
       \<and> (\<exists>later. messagesToSend (run_events es t) = messagesToSend t @ later)"
  using assms
proof (induction es arbitrary: t)
  case Nil
  then show ?case by (simp add: run_events_def)
next
  case (Cons e es)
  have step: "run_events (e # es) t = run_events es (run_event e t)"
    by (simp add: run_events_def)
  have one: "sent (run_event e t) = sent t
       \<and> (\<exists>later. messagesToSend (run_event e t) = messagesToSend t @ later)"
  proof (cases e)
    case (Arrive d)
    then show ?thesis by (simp add: protocol_onMessage_def)
  next
    case Tick
    with Cons.prems tick_quiet[of t] show ?thesis by simp
  qed
  from Cons.prems have q: "quiet es (run_event e t)" by simp
  from Cons.IH[OF q] one show ?case
    unfolding step by auto
qed

lemma send_inv_events: "send_inv t \<Longrightarrow> send_inv (run_events es t)"
proof (induction es arbitrary: t)
  case Nil
  then show ?case by (simp add: run_events_def)
next
  case (Cons e es)
  have "send_inv (run_event e t)"
    using Cons.prems by (cases e) (simp_all add: send_inv_arrive send_inv_tick)
  from Cons.IH[OF this] show ?case by (simp add: run_events_def)
qed

text \<open>
  C4. \<open>K \<ge> 1\<close> calls of \<^verbatim>\<open>send\<close> in one step schedule the flush if the buffer was
  empty, and not again if it was not. Until the flush runs, whatever batches arrive and
  whatever other ticks run meanwhile (\<open>quiet\<close>), nothing is handed to the transport;
  and where the flush is scheduled exactly when messages are buffered (as it is in a new
  manager, and stays), exactly one flush is in the queue. The flush hands the transport
  one batch: what was
  buffered before the step, then the \<open>K\<close> messages in the order of the calls, then what
  later steps have sent; and it empties the buffer. The batch is exactly the \<open>K\<close>
  messages when the buffer was empty before the step and the flush runs before another
  step sends; where nothing else was scheduled, the next tick is that flush, and after
  it nothing is left to run.
\<close>

theorem C4_sends_of_one_step_are_one_batch:
  assumes "msgs \<noteq> []" and "quiet es (sends msgs s)"
  shows "nextTick (sends msgs s)
           = nextTick s @ (if messagesToSend s = [] then [SendAccumulatedBound] else [])
       \<and> sent (run_events es (sends msgs s)) = sent s
       \<and> (send_inv s \<longrightarrow>
            length (filter (\<lambda>t. t = SendAccumulatedBound)
                      (nextTick (run_events es (sends msgs s)))) = 1)
       \<and> (\<exists>later.
            messagesToSend (run_events es (sends msgs s)) = messagesToSend s @ msgs @ later
            \<and> sent (RPCMultiplexer_sendAccumulated (run_events es (sends msgs s)))
                = sent s @ [messagesToSend s @ msgs @ later])
       \<and> messagesToSend (RPCMultiplexer_sendAccumulated (run_events es (sends msgs s))) = []
       \<and> (messagesToSend s = [] \<longrightarrow>
            sent (RPCMultiplexer_sendAccumulated (sends msgs s)) = sent s @ [msgs])
       \<and> (messagesToSend s = [] \<and> nextTick s = [] \<longrightarrow>
            run_tick (sends msgs s) = s\<lparr> sent := sent s @ [msgs] \<rparr>
            \<and> run_tick (run_tick (sends msgs s)) = run_tick (sends msgs s))"
proof -
  let ?t = "run_events es (sends msgs s)"
  note b = sends_buffer[of msgs s]
  from b assms(1) have nt: "nextTick (sends msgs s)
      = nextTick s @ (if messagesToSend s = [] then [SendAccumulatedBound] else [])"
    and buf: "messagesToSend (sends msgs s) = messagesToSend s @ msgs"
    and snt: "sent (sends msgs s) = sent s"
    by simp_all
  have shape: "sends msgs s = s\<lparr> nextTick := nextTick (sends msgs s),
                          messagesToSend := messagesToSend (sends msgs s) \<rparr>"
    by (rule b[THEN conjunct2, THEN conjunct2, THEN conjunct2])
  from quiet_run[OF assms(2)] obtain later where
    ts: "sent ?t = sent s"
    and tb: "messagesToSend ?t = messagesToSend s @ msgs @ later"
    by (auto simp: buf snt)
  have one: "length (filter (\<lambda>t. t = SendAccumulatedBound) (nextTick ?t)) = 1"
    if i: "send_inv s"
    using send_inv_events[OF only_sends_send_inv[OF sends_only_sends i], of es] tb assms(1)
    by (simp add: send_inv_def)
  have fl: "sent (RPCMultiplexer_sendAccumulated ?t) = sent s @ [messagesToSend s @ msgs @ later]"
    "messagesToSend (RPCMultiplexer_sendAccumulated ?t) = []"
    by (simp_all add: RPCMultiplexer_sendAccumulated_def tb ts)
  have ex: "\<exists>later. messagesToSend ?t = messagesToSend s @ msgs @ later
            \<and> sent (RPCMultiplexer_sendAccumulated ?t) = sent s @ [messagesToSend s @ msgs @ later]"
    using tb fl(1) by (intro exI[of _ later] conjI)
  have alone: "sent (RPCMultiplexer_sendAccumulated (sends msgs s)) = sent s @ [msgs]"
    if e: "messagesToSend s = []"
    by (simp add: RPCMultiplexer_sendAccumulated_def buf snt e)
  have tick: "run_tick (sends msgs s) = s\<lparr> sent := sent s @ [msgs] \<rparr>"
    and idle: "run_tick (run_tick (sends msgs s)) = run_tick (sends msgs s)"
    if e: "messagesToSend s = []" and q: "nextTick s = []"
  proof -
    have "run_tick (sends msgs s)
          = RPCMultiplexer_sendAccumulated ((sends msgs s)\<lparr> nextTick := [] \<rparr>)"
      using nt q e by (simp add: run_tick_def)
    also have "\<dots> = s\<lparr> sent := sent s @ [msgs] \<rparr>"
      by (subst shape) (simp add: RPCMultiplexer_sendAccumulated_def buf snt nt q e)
    finally show "run_tick (sends msgs s) = s\<lparr> sent := sent s @ [msgs] \<rparr>" .
    then show "run_tick (run_tick (sends msgs s)) = run_tick (sends msgs s)"
      using q by (simp add: run_tick_def)
  qed
  from nt ts one ex fl(2) alone tick idle show ?thesis by blast
qed

text \<open>
  Two calls of \<^verbatim>\<open>send\<close> at a manager that has a request waiting: the tick that
  delivers the request runs before the flush and appends the reply, and the flush hands
  over the two messages followed by the reply.
\<close>

theorem C4_sends_witness:
  \<open>sent (run_events [Tick] (sends [''a'', ''b''] one_request)) = []
   \<and> length (filter (\<lambda>t. t = SendAccumulatedBound)
               (nextTick (run_events [Tick] (sends [''a'', ''b''] one_request)))) = 1
   \<and> messagesToSend (run_events [Tick] (sends [''a'', ''b''] one_request))
     = [''a'', ''b'', ''{"seq":"2","res":42}'']
   \<and> sent (RPCMultiplexer_sendAccumulated (run_events [Tick] (sends [''a'', ''b''] one_request)))
     = [[''a'', ''b'', ''{"seq":"2","res":42}'']]
   \<and> sent (RPCMultiplexer_sendAccumulated (sends [''a'', ''b''] one_request)) = [[''a'', ''b'']]\<close>
proof -
  have f: "messagesToSend one_request = []" "sent one_request = []"
    "nextTick one_request = [ReceiveOneMessageBound]"
    by (simp_all add: one_request_def protocol_onMessage_def setManyHandler_def
        new_RPCManager_def)
  have 1: "[''a'', ''b''] \<noteq> []" by simp
  have 2: "quiet [Tick] (sends [''a'', ''b''] one_request)"
    using sends_buffer[of "[''a'', ''b'']" one_request] by (simp add: f)
  have 3: "send_inv one_request" by (simp add: send_inv_def f)
  have b: \<open>messagesToSend (run_events [Tick] (sends [''a'', ''b''] one_request))
     = [''a'', ''b'', ''{"seq":"2","res":42}'']\<close>
    by (simp add: run_events_def sends_def one_request_def protocol_onMessage_def
      setManyHandler_def new_RPCManager_def
      run_tick_def RPCMultiplexer_receiveOneMessage_def RPCManager_receiveOneMessage_def
      parse_request_2 classify_def truthy_def receive_request_def to_key_def answer_42_def
      register_def on_settled_def RPCMultiplexer_send_def MessageFactory_replyOK_def
      string_of_int_42 Let_def)
  from C4_sends_of_one_step_are_one_batch[OF 1 2] 3 b f show ?thesis
    by auto
qed

lemma two_requests_tick1:
  \<open>run_tick two_requests =
     (setManyHandler (Some answer_42) new_RPCManager)
       \<lparr> messagesToReceive := [''{"req":"2","rpcId":"svc.foo","method":"bar","args":[]}''],
         nextTick := [ReceiveOneMessageBound, SendAccumulatedBound],
         delivered := [Some ''{"req":"1","rpcId":"svc.foo","method":"bar","args":[1,2]}''],
         invocations := [\<lparr> inv_key = ''1'', inv_settled = True, inv_cancels = 0 \<rparr>],
         messagesToSend := [''{"seq":"1","res":42}''] \<rparr>\<close>
  by (simp add: two_requests_def protocol_onMessage_def setManyHandler_def new_RPCManager_def
      run_tick_def RPCMultiplexer_receiveOneMessage_def RPCManager_receiveOneMessage_def
      parse_request_1 classify_def truthy_def receive_request_def to_key_def answer_42_def
      register_def on_settled_def RPCMultiplexer_send_def MessageFactory_replyOK_def
      string_of_int_42 Let_def)

text \<open>
  The batch need not be exactly the messages of one step. Two requests arrive in one
  batch at a manager whose handler answers at once. The first tick delivers the first
  request and sends its reply, from an empty buffer: a step with \<open>K = 1\<close>, after which
  the queue of ticks is the next delivery followed by the flush. The second tick
  delivers the second request and appends its reply. The third tick is the flush, the
  only transport send, and its batch holds both replies.
\<close>

theorem C4_two_steps_one_batch_counterexample:
  \<open>messagesToSend two_requests = []
   \<and> messagesToSend (run_tick two_requests) = [''{"seq":"1","res":42}'']
   \<and> sent (run_tick two_requests) = []
   \<and> sent (run_tick (run_tick (run_tick two_requests)))
     = [[''{"seq":"1","res":42}'', ''{"seq":"2","res":42}'']]
   \<and> nextTick (run_tick (run_tick (run_tick two_requests))) = []\<close>
proof -
  have 0: "messagesToSend two_requests = []"
    by (simp add: two_requests_def protocol_onMessage_def setManyHandler_def new_RPCManager_def)
  have 3: \<open>sent (run_tick (run_tick (run_tick two_requests)))
     = [[''{"seq":"1","res":42}'', ''{"seq":"2","res":42}'']]
     \<and> nextTick (run_tick (run_tick (run_tick two_requests))) = []\<close>
    unfolding two_requests_tick1
    by (simp add: setManyHandler_def new_RPCManager_def
      run_tick_def RPCMultiplexer_receiveOneMessage_def RPCManager_receiveOneMessage_def
      parse_request_2 classify_def truthy_def receive_request_def to_key_def answer_42_def
      register_def on_settled_def RPCMultiplexer_send_def MessageFactory_replyOK_def
      RPCMultiplexer_sendAccumulated_def string_of_int_42 Let_def)
  from 0 3 show ?thesis
    by (simp add: two_requests_tick1 setManyHandler_def new_RPCManager_def)
qed

subsection \<open>A reply to an unknown id\<close>

lemma parse_reply_key_object:
  \<open>parse ''{"seq":{"toString":1},"res":1}''
   = Inr (JObj [(''seq'', JObj [(''toString'', JNum 1)]), (''res'', JNum 1)])\<close>
  by code_simp

lemma parse_reply_seq_zero:
  \<open>parse ''{"seq":0,"res":1}'' = Inr (JObj [(''seq'', JNum 0), (''res'', JNum 1)])\<close>
  by code_simp

text \<open>
  C6. A reply whose \<^verbatim>\<open>seq\<close> is true, converts to a property key, and names no pending
  call is dropped with a warning: the dispatch returns (it throws nothing), and the
  state after it is the state before it with one more line on the console. The map of
  pending calls and every result of a call are as they were.
\<close>

theorem C6_reply_to_unknown_seq_is_dropped:
  assumes "parse raw = Inr msg"
    and "truthy (own_prop msg ''seq'')"
    and "to_key (own_prop msg ''seq'') = Inr k"
    and "pendingRPCReplies s k = None"
  shows "RPCManager_receiveOneMessage (Some raw) s
           = Inr (s\<lparr> console := console s @ [Warn ''Got reply to unknown seq''] \<rparr>)
       \<and> pendingRPCReplies (s\<lparr> console := console s @ [Warn ''Got reply to unknown seq''] \<rparr>)
           = pendingRPCReplies s
       \<and> lazyPromises (s\<lparr> console := console s @ [Warn ''Got reply to unknown seq''] \<rparr>)
           = lazyPromises s"
proof -
  from assms(2) have "msg \<noteq> JNull" by (auto simp: truthy_def)
  with assms show ?thesis
    by (simp add: RPCManager_receiveOneMessage_def classify_def receive_reply_def)
qed

theorem C6_reply_to_unknown_seq_witness:
  \<open>RPCManager_receiveOneMessage (Some ''{"seq":"7","res":1}'') one_call
   = Inr (one_call \<lparr> console := [Warn ''Got reply to unknown seq''] \<rparr>)
   \<and> pendingRPCReplies one_call ''1'' = Some 0
   \<and> console one_call = []\<close>
proof -
  have t: "truthy (own_prop (JObj [(''seq'', JStr ''7''), (''res'', JNum 1)]) ''seq'')"
    by (simp add: truthy_def)
  have k: "to_key (own_prop (JObj [(''seq'', JStr ''7''), (''res'', JNum 1)]) ''seq'') = Inr ''7''"
    by (simp add: to_key_def)
  have p: "pendingRPCReplies one_call ''7'' = None" "pendingRPCReplies one_call ''1'' = Some 0"
    "console one_call = []"
    by (simp_all add: one_call_def call_defs)
  from C6_reply_to_unknown_seq_is_dropped[OF parse_reply_7 t k p(1)] p show ?thesis
    by simp
qed

text \<open>
  A reply can make the dispatch throw. When \<^verbatim>\<open>seq\<close> is an object with an own member
  \<^verbatim>\<open>toString\<close>, line 46 cannot convert it to a property key: \<^verbatim>\<open>TypeError\<close>. When
  \<^verbatim>\<open>seq\<close> is present but not true (the number \<open>0\<close>), line 45 sends the message down
  the request branch, which throws for want of a handler.
\<close>

theorem C6_reply_seq_counterexample:
  \<open>RPCManager_receiveOneMessage (Some ''{"seq":{"toString":1},"res":1}'') new_RPCManager
     = Inl TypeError
   \<and> RPCManager_receiveOneMessage (Some ''{"seq":0,"res":1}'') new_RPCManager
     = Inl NoBigHandler\<close>
  by (simp add: RPCManager_receiveOneMessage_def classify_def truthy_def to_key_def
      receive_request_def parse_reply_key_object parse_reply_seq_zero new_RPCManager_def)

subsection \<open>A request without a handler\<close>

lemma parse_bare_error_null: \<open>parse ''{"err":null}'' = Inr (JObj [(''err'', JNull)])\<close>
  by code_simp

lemma parse_bare_error: \<open>parse ''{"err":"boom"}'' = Inr (JObj [(''err'', JStr ''boom'')])\<close>
  by code_simp

lemma parse_cancel_5: \<open>parse ''{"cancel":"5"}'' = Inr (JObj [(''cancel'', JStr ''5'')])\<close>
  by code_simp

lemma parse_cancel_key_object:
  \<open>parse ''{"cancel":{"toString":1}}'' = Inr (JObj [(''cancel'', JObj [(''toString'', JNum 1)])])\<close>
  by code_simp

lemma serving_fields:
  "bigHandler serving = Some sample_handler" "invocations serving = []"
  "messagesToSend serving = []" "invokedHandlers serving = Map.empty"
  by (simp_all add: serving_def setManyHandler_def new_RPCManager_def)

text \<open>
  C7. With no handler registered, a message that reaches the request branch (it is not
  \<^verbatim>\<open>null\<close>, and its \<^verbatim>\<open>seq\<close>, \<^verbatim>\<open>cancel\<close> and \<^verbatim>\<open>err\<close> are all false) makes the
  dispatch throw; the tick that delivered it records the exception, and nothing is
  registered and nothing is sent. A reply, a cancel and a bare error whose \<^verbatim>\<open>seq\<close>,
  \<^verbatim>\<open>cancel\<close> or \<^verbatim>\<open>err\<close> is true are processed without a handler, as with one: the
  dispatch returns what lines 46-66, 70-73 and 77 make of the state, provided the id
  converts to a property key.
\<close>

theorem C7_request_without_handler_throws:
  assumes "parse raw = Inr msg" and "msg \<noteq> JNull" and "bigHandler s = None"
  shows "(\<not> truthy (own_prop msg ''seq'') \<and> \<not> truthy (own_prop msg ''cancel'')
            \<and> \<not> truthy (own_prop msg ''err'')
          \<longrightarrow> RPCManager_receiveOneMessage (Some raw) s = Inl NoBigHandler
              \<and> RPCMultiplexer_receiveOneMessage (s\<lparr> messagesToReceive := [raw] \<rparr>)
                  = s\<lparr> messagesToReceive := [], delivered := delivered s @ [Some raw],
                       uncaught := uncaught s @ [NoBigHandler] \<rparr>)
       \<and> (truthy (own_prop msg ''seq'') \<and> to_key (own_prop msg ''seq'') = Inr k
          \<longrightarrow> RPCManager_receiveOneMessage (Some raw) s = Inr (receive_reply k msg s))
       \<and> (\<not> truthy (own_prop msg ''seq'') \<and> truthy (own_prop msg ''cancel'')
            \<and> to_key (own_prop msg ''cancel'') = Inr k
          \<longrightarrow> RPCManager_receiveOneMessage (Some raw) s = Inr (receive_cancel k s))
       \<and> (\<not> truthy (own_prop msg ''seq'') \<and> \<not> truthy (own_prop msg ''cancel'')
            \<and> truthy (own_prop msg ''err'')
          \<longrightarrow> RPCManager_receiveOneMessage (Some raw) s
              = Inr (s\<lparr> console := console s @ [LogError (own_prop msg ''err'')] \<rparr>))"
  using assms
  by (simp add: RPCManager_receiveOneMessage_def RPCMultiplexer_receiveOneMessage_def
      classify_def receive_request_def Let_def)

theorem C7_request_without_handler_witness:
  \<open>RPCManager_receiveOneMessage
     (Some ''{"req":"1","rpcId":"svc.foo","method":"bar","args":[1,2]}'') new_RPCManager
     = Inl NoBigHandler
   \<and> RPCMultiplexer_receiveOneMessage
       (new_RPCManager\<lparr> messagesToReceive :=
          [''{"req":"1","rpcId":"svc.foo","method":"bar","args":[1,2]}''] \<rparr>)
     = new_RPCManager
         \<lparr> delivered := [Some ''{"req":"1","rpcId":"svc.foo","method":"bar","args":[1,2]}''],
           uncaught := [NoBigHandler] \<rparr>
   \<and> map_sum id (\<lambda>s'. (resolution (lazyPromises s' ! 0), pendingRPCReplies s' ''1''))
       (RPCManager_receiveOneMessage (Some ''{"seq":"1","res":42}'') one_call)
     = Inr (ResolvedOk (VJson (JNum 42)), None)
   \<and> map_sum id (\<lambda>t. (inv_cancels (invocations t ! 0), invokedHandlers t ''5''))
       (RPCManager_receiveOneMessage (Some ''{"cancel":"5"}'')
          (setManyHandler None (register ''5'' False serving)))
     = Inr (1, Some 0)
   \<and> RPCManager_receiveOneMessage (Some ''{"err":"boom"}'') new_RPCManager
     = Inr (new_RPCManager\<lparr> console := [LogError (Some (JStr ''boom''))] \<rparr>)\<close>
proof -
  have h: "bigHandler new_RPCManager = None" "bigHandler one_call = None"
    "bigHandler (setManyHandler None (register ''5'' False serving)) = None"
    by (simp_all add: one_call_def call_defs setManyHandler_def)
  have n: "JObj [(''req'', JStr ''1''), (''rpcId'', JStr ''svc.foo''), (''method'', JStr ''bar''),
                (''args'', JArr [JNum 1, JNum 2])] \<noteq> JNull"
    "JObj [(''seq'', JStr ''1''), (''res'', JNum 42)] \<noteq> JNull"
    "JObj [(''cancel'', JStr ''5'')] \<noteq> JNull" "JObj [(''err'', JStr ''boom'')] \<noteq> JNull"
    by simp_all
  from C7_request_without_handler_throws[OF parse_request_1 n(1) h(1)]
  have 1: \<open>RPCManager_receiveOneMessage
     (Some ''{"req":"1","rpcId":"svc.foo","method":"bar","args":[1,2]}'') new_RPCManager
     = Inl NoBigHandler
   \<and> RPCMultiplexer_receiveOneMessage
       (new_RPCManager\<lparr> messagesToReceive :=
          [''{"req":"1","rpcId":"svc.foo","method":"bar","args":[1,2]}''] \<rparr>)
     = new_RPCManager
         \<lparr> delivered := [Some ''{"req":"1","rpcId":"svc.foo","method":"bar","args":[1,2]}''],
           uncaught := [NoBigHandler] \<rparr>\<close>
    by (simp add: truthy_def new_RPCManager_def)
  from C7_request_without_handler_throws[OF parse_reply_42 n(2) h(2), of "''1''"]
  have 2: \<open>map_sum id (\<lambda>s'. (resolution (lazyPromises s' ! 0), pendingRPCReplies s' ''1''))
       (RPCManager_receiveOneMessage (Some ''{"seq":"1","res":42}'') one_call)
     = Inr (ResolvedOk (VJson (JNum 42)), None)\<close>
    by (simp add: truthy_def to_key_def receive_reply_def one_call_def call_defs of_prop_def
        LazyPromise_resolveOk_def run_script_def)
  from C7_request_without_handler_throws[OF parse_cancel_5 n(3) h(3), of "''5''"]
  have 3: \<open>map_sum id (\<lambda>t. (inv_cancels (invocations t ! 0), invokedHandlers t ''5''))
       (RPCManager_receiveOneMessage (Some ''{"cancel":"5"}'')
          (setManyHandler None (register ''5'' False serving)))
     = Inr (1, Some 0)\<close>
    by (simp add: truthy_def to_key_def receive_cancel_def setManyHandler_def register_def
        serving_fields)
  from C7_request_without_handler_throws[OF parse_bare_error n(4) h(1)]
  have 4: \<open>RPCManager_receiveOneMessage (Some ''{"err":"boom"}'') new_RPCManager
     = Inr (new_RPCManager\<lparr> console := [LogError (Some (JStr ''boom''))] \<rparr>)\<close>
    by (simp add: truthy_def new_RPCManager_def)
  from 1 2 3 4 show ?thesis by simp
qed

text \<open>
  A bare error whose \<^verbatim>\<open>err\<close> is \<^verbatim>\<open>null\<close> is not processed without a handler: no
  condition of lines 45, 69, 76 is true of it, it reaches the request branch, and the
  dispatch throws. A cancel whose id is an object with an own member \<^verbatim>\<open>toString\<close>
  makes line 70 throw a \<^verbatim>\<open>TypeError\<close>.
\<close>

theorem C7_falsy_field_counterexample:
  \<open>RPCManager_receiveOneMessage (Some ''{"err":null}'') new_RPCManager = Inl NoBigHandler
   \<and> RPCManager_receiveOneMessage (Some ''{"cancel":{"toString":1}}'') new_RPCManager
     = Inl TypeError\<close>
  by (simp add: RPCManager_receiveOneMessage_def classify_def truthy_def to_key_def
      receive_request_def parse_bare_error_null parse_cancel_key_object new_RPCManager_def)

subsection \<open>Cancelling a call, and the reply that follows\<close>
















subsection \<open>An inbound request, from registration to reply\<close>















subsection \<open>The entry goes before the result is resolved\<close>

lemma callsOnRemote_snoc:
  "snd (callsOnRemote (cs @ [c]) s)
   = snd (callOnRemote (fst c) (fst (snd c)) (snd (snd c)) (snd (callsOnRemote cs s)))"
  by (induction cs arbitrary: s) (simp_all add: callsOnRemote_Cons)

lemma callsOnRemote_counter:
  "lastMessageId s + length cs \<le> 9007199254740992
   \<Longrightarrow> lastMessageId (snd (callsOnRemote cs s)) = lastMessageId s + length cs"
proof (induction cs arbitrary: s)
  case Nil
  then show ?case by simp
next
  case (Cons c cs)
  let ?s1 = "snd (callOnRemote (fst c) (fst (snd c)) (snd (snd c)) s)"
  from Cons.prems have j: "lastMessageId ?s1 = Suc (lastMessageId s)"
    by (simp add: callOnRemote_fields js_increment_def)
  with Cons.prems have "lastMessageId ?s1 + length cs \<le> 9007199254740992" by simp
  from Cons.IH[OF this] j show ?case by (simp add: callsOnRemote_Cons)
qed

lemma callsOnRemote_length:
  "length (lazyPromises (snd (callsOnRemote cs s))) = length (lazyPromises s) + length cs"
  by (induction cs arbitrary: s) (simp_all add: callsOnRemote_Cons callOnRemote_fields)

lemma last_call_fields:
  assumes "lastMessageId s + Suc (length cs) \<le> 9007199254740992"
  shows "lastMessageId (snd (callsOnRemote (cs @ [c]) s)) = lastMessageId s + Suc (length cs)"
    and "length (lazyPromises (snd (callsOnRemote (cs @ [c]) s)))
         = Suc (length (lazyPromises s) + length cs)"
    and "lazyPromises (snd (callsOnRemote (cs @ [c]) s)) ! (length (lazyPromises s) + length cs)
         = \<lparr> onCancel_req = string_of_nat (lastMessageId s + Suc (length cs)),
             resolution = Pending, cancelRequested = False, continuations = [] \<rparr>"
    and "pendingRPCReplies (snd (callsOnRemote (cs @ [c]) s))
           (string_of_nat (lastMessageId s + Suc (length cs)))
         = Some (length (lazyPromises s) + length cs)"
proof -
  let ?t = "snd (callsOnRemote cs s)"
  from assms have "lastMessageId s + length cs \<le> 9007199254740992" by simp
  from callsOnRemote_counter[OF this]
  have n: "lastMessageId ?t = lastMessageId s + length cs" .
  with assms have j: "js_increment (lastMessageId ?t) = lastMessageId s + Suc (length cs)"
    by (simp add: js_increment_def)
  note l = callsOnRemote_length[of cs s]
  show "lastMessageId (snd (callsOnRemote (cs @ [c]) s)) = lastMessageId s + Suc (length cs)"
    by (simp add: callsOnRemote_snoc callOnRemote_fields j)
  show "length (lazyPromises (snd (callsOnRemote (cs @ [c]) s)))
         = Suc (length (lazyPromises s) + length cs)"
    by (simp add: callsOnRemote_snoc callOnRemote_fields l)
  show "lazyPromises (snd (callsOnRemote (cs @ [c]) s)) ! (length (lazyPromises s) + length cs)
         = \<lparr> onCancel_req = string_of_nat (lastMessageId s + Suc (length cs)),
             resolution = Pending, cancelRequested = False, continuations = [] \<rparr>"
    by (simp add: callsOnRemote_snoc callOnRemote_fields j nth_append l)
  show "pendingRPCReplies (snd (callsOnRemote (cs @ [c]) s))
           (string_of_nat (lastMessageId s + Suc (length cs)))
         = Some (length (lazyPromises s) + length cs)"
    by (simp add: callsOnRemote_snoc callOnRemote_fields j l)
qed

lemma string_of_nat_two_53: "string_of_nat 9007199254740992 = ''9007199254740992''"
  by (simp add: string_of_nat.simps digit_char_values)

lemma saturated_fields:
  "lastMessageId saturated_call = 9007199254740992"
  "pendingRPCReplies saturated_call ''9007199254740992'' = Some 9007199254740991"
  "length (lazyPromises saturated_call) = 9007199254740992"
  "lazyPromises saturated_call ! 9007199254740991
   = \<lparr> onCancel_req = ''9007199254740992'', resolution = Pending, cancelRequested = False,
       continuations = [([CallOnRemote ''svc.foo'' ''again'' []], [])] \<rparr>"
  "console saturated_call = []"
proof -
  let ?c = "(''svc.foo'', ''bar'', []) :: string \<times> string \<times> json list"
  let ?cs = "replicate 9007199254740991 ?c"
  let ?s0 = "snd (callsOnRemote (?cs @ [?c]) new_RPCManager)"
  have n: "(9007199254740992::nat) = Suc 9007199254740991" by simp
  have r: "replicate 9007199254740992 ?c = ?cs @ [?c]"
    by (subst n) (simp only: replicate_Suc replicate_append_same)
  have len: "length ?cs = 9007199254740991" by (simp only: length_replicate)
  have z: "lastMessageId new_RPCManager = 0" "lazyPromises new_RPCManager = []"
    by (simp_all add: new_RPCManager_def)
  have b: "lastMessageId new_RPCManager + Suc (length ?cs) \<le> 9007199254740992"
    by (simp add: z)
  note f = last_call_fields[OF b, of ?c]
  have f1: "lastMessageId ?s0 = 9007199254740992"
    using f(1) by (simp add: z)
  have f2: "length (lazyPromises ?s0) = 9007199254740992"
    using f(2) by (simp add: z)
  have f3: "lazyPromises ?s0 ! 9007199254740991
         = \<lparr> onCancel_req = ''9007199254740992'',
             resolution = Pending, cancelRequested = False, continuations = [] \<rparr>"
    using f(3) by (simp add: z string_of_nat_two_53)
  have f4: "pendingRPCReplies ?s0 ''9007199254740992'' = Some 9007199254740991"
    using f(4) by (simp add: z string_of_nat_two_53)
  have cons: "console (snd (callsOnRemote cs s)) = console s" for cs s
    by (induction cs arbitrary: s)
      (simp_all add: callsOnRemote_Cons callOnRemote_def Let_def RPCMultiplexer_send_def)
  have sc: "saturated_call
            = ?s0\<lparr> lazyPromises := (lazyPromises ?s0)
                [9007199254740991 :=
                   \<lparr> onCancel_req = ''9007199254740992'', resolution = Pending,
                     cancelRequested = False,
                     continuations = [([CallOnRemote ''svc.foo'' ''again'' []], [])] \<rparr>] \<rparr>"
    unfolding saturated_call_def r LazyPromise_then_def Let_def
    by (simp only: f2 f3) simp
  show "lastMessageId saturated_call = 9007199254740992"
    unfolding sc using f1 by simp
  show "pendingRPCReplies saturated_call ''9007199254740992'' = Some 9007199254740991"
    unfolding sc using f4 by simp
  show "length (lazyPromises saturated_call) = 9007199254740992"
    unfolding sc using f2 by simp
  show "lazyPromises saturated_call ! 9007199254740991
   = \<lparr> onCancel_req = ''9007199254740992'', resolution = Pending, cancelRequested = False,
       continuations = [([CallOnRemote ''svc.foo'' ''again'' []], [])] \<rparr>"
    unfolding sc using f2 by simp
  show "console saturated_call = []"
    unfolding sc by (simp add: cons new_RPCManager_def)
qed

lemma saturated_reentry:
  assumes "lastMessageId s = 9007199254740992"
    and "r < length (lazyPromises s)"
    and "resolution (lazyPromises s ! r) = Pending"
    and "continuations (lazyPromises s ! r) = [([CallOnRemote p m a], onErr)]"
  shows "pendingRPCReplies
           (LazyPromise_resolveOk r v
              (s\<lparr> pendingRPCReplies := (pendingRPCReplies s)(string_of_nat 9007199254740992 := None) \<rparr>))
           (string_of_nat 9007199254740992)
         = Some (length (lazyPromises s))"
  using assms
  by (simp add: LazyPromise_resolveOk_def Let_def run_script_def callOnRemote_def
      js_increment_def RPCMultiplexer_send_def)

lemma parse_reply_two_53:
  \<open>parse ''{"seq":"9007199254740992","res":42}''
   = Inr (JObj [(''seq'', JStr ''9007199254740992''), (''res'', JNum 42)])\<close>
  by code_simp

text \<open>
  C10. For a reply whose \<^verbatim>\<open>seq\<close> names a pending call, the dispatch is the resolution
  of the call's result run on the state from which the entry is already deleted: what
  the continuations of the result do, they do without the entry. While the counter is
  below \<open>2^53\<close> (\<open>9007199254740992\<close>) after the dispatch, the entry is absent after it,
  whatever the continuations called, and a second reply with the same \<^verbatim>\<open>seq\<close> is
  unknown: it adds a warning to the console and changes nothing else, so no result is
  resolved a second time through a reply. With the counter at \<open>2^53\<close>, a continuation
  that calls \<^verbatim>\<open>callOnRemote\<close> is given the id \<open>9007199254740992\<close> again; since the
  entry of the reply went first, the entry that stands after the dispatch is the one of
  the new call.
\<close>

theorem C10_entry_deleted_before_resolution:
  assumes "parse raw = Inr msg" and "truthy (own_prop msg ''seq'')"
    and "to_key (own_prop msg ''seq'') = Inr k"
    and "pendingRPCReplies s k = Some r"
  shows "RPCManager_receiveOneMessage (Some raw) s = Inr (receive_reply k msg s)
       \<and> receive_reply k msg s
           = (if truthy (own_prop msg ''err'')
              then LazyPromise_resolveErr r (reply_error msg)
              else LazyPromise_resolveOk r (of_prop (own_prop msg ''res'')))
             (s\<lparr> pendingRPCReplies := (pendingRPCReplies s)(k := None) \<rparr>)
       \<and> (ids_inv s \<and> lastMessageId (receive_reply k msg s) < 9007199254740992 \<longrightarrow>
            pendingRPCReplies (receive_reply k msg s) k = None
            \<and> (\<forall>raw2 msg2.
                  parse raw2 = Inr msg2 \<and> truthy (own_prop msg2 ''seq'')
                  \<and> to_key (own_prop msg2 ''seq'') = Inr k
                  \<longrightarrow> RPCManager_receiveOneMessage (Some raw2) (receive_reply k msg s)
                      = Inr ((receive_reply k msg s)
                               \<lparr> console := console (receive_reply k msg s)
                                             @ [Warn ''Got reply to unknown seq''] \<rparr>)))
       \<and> (lastMessageId s = 9007199254740992 \<and> k = string_of_nat 9007199254740992
            \<and> r < length (lazyPromises s) \<and> resolution (lazyPromises s ! r) = Pending
            \<and> \<not> truthy (own_prop msg ''err'')
            \<and> continuations (lazyPromises s ! r) = [([CallOnRemote p m a], onErr)]
          \<longrightarrow> pendingRPCReplies (receive_reply k msg s) k = Some (length (lazyPromises s)))"
proof -
  let ?d = "s\<lparr> pendingRPCReplies := (pendingRPCReplies s)(k := None) \<rparr>"
  from assms(2) have nn: "msg \<noteq> JNull" by (auto simp: truthy_def)
  have 1: "RPCManager_receiveOneMessage (Some raw) s = Inr (receive_reply k msg s)"
    by (rule dispatch_reply[OF assms(1) nn assms(2,3)])
  have 2: "receive_reply k msg s
           = (if truthy (own_prop msg ''err'')
              then LazyPromise_resolveErr r (reply_error msg)
              else LazyPromise_resolveOk r (of_prop (own_prop msg ''res''))) ?d"
    using receive_reply_known[OF assms(4)] by simp
  have 3: "pendingRPCReplies (receive_reply k msg s) k = None"
    if i: "ids_inv s" and b: "lastMessageId (receive_reply k msg s) < 9007199254740992"
  proof -
    from assms(4) i obtain n where n: "n \<le> lastMessageId s" "k = string_of_nat n"
      unfolding ids_inv_def by blast
    have dn: "pendingRPCReplies ?d (string_of_nat n) = None" "n \<le> lastMessageId ?d"
      using n by simp_all
    show ?thesis
    proof (cases "truthy (own_prop msg ''err'')")
      case True
      with 2 have e: "receive_reply k msg s = LazyPromise_resolveErr r (reply_error msg) ?d"
        by simp
      have "pendingRPCReplies (LazyPromise_resolveErr r (reply_error msg) ?d) (string_of_nat n) = None"
        using b unfolding e by (rule resolve_counter_pending(2)[OF _ dn])
      then show ?thesis unfolding e by (simp add: n(2))
    next
      case False
      with 2 have e: "receive_reply k msg s
                      = LazyPromise_resolveOk r (of_prop (own_prop msg ''res'')) ?d"
        by simp
      have "pendingRPCReplies (LazyPromise_resolveOk r (of_prop (own_prop msg ''res'')) ?d)
              (string_of_nat n) = None"
        using b unfolding e by (rule resolve_counter_pending(1)[OF _ dn])
      then show ?thesis unfolding e by (simp add: n(2))
    qed
  qed
  have 4: "RPCManager_receiveOneMessage (Some raw2) (receive_reply k msg s)
           = Inr ((receive_reply k msg s)
                    \<lparr> console := console (receive_reply k msg s)
                                  @ [Warn ''Got reply to unknown seq''] \<rparr>)"
    if i: "ids_inv s" and b: "lastMessageId (receive_reply k msg s) < 9007199254740992"
      and m2: "parse raw2 = Inr msg2" "truthy (own_prop msg2 ''seq'')"
        "to_key (own_prop msg2 ''seq'') = Inr k" for raw2 msg2
  proof -
    from m2(2) have "msg2 \<noteq> JNull" by (auto simp: truthy_def)
    from dispatch_reply[OF m2(1) this m2(2,3)] 3[OF i b] show ?thesis
      by (simp add: receive_reply_def[of k msg2])
  qed
  have 5: "pendingRPCReplies (receive_reply k msg s) k = Some (length (lazyPromises s))"
    if "lastMessageId s = 9007199254740992" "k = string_of_nat 9007199254740992"
      "r < length (lazyPromises s)" "resolution (lazyPromises s ! r) = Pending"
      "\<not> truthy (own_prop msg ''err'')"
      "continuations (lazyPromises s ! r) = [([CallOnRemote p m a], onErr)]"
    unfolding 2 using that(5) saturated_reentry[OF that(1,3,4,6)] by (simp add: that(2))
  show ?thesis
    apply (intro conjI allI impI)
    subgoal by (rule 1)
    subgoal by (rule 2)
    subgoal using 3 by blast
    subgoal using 4 by blast
    subgoal using 5 by blast
    done
qed

theorem C10_entry_deleted_witness:
  \<open>lastMessageId (receive_reply ''1'' (JObj [(''seq'', JStr ''1''), (''res'', JNum 42)]) one_call_then) = 2
   \<and> pendingRPCReplies
       (receive_reply ''1'' (JObj [(''seq'', JStr ''1''), (''res'', JNum 42)]) one_call_then)
     = [''2'' \<mapsto> 1]
   \<and> RPCManager_receiveOneMessage (Some ''{"seq":"1","res":42}'')
       (receive_reply ''1'' (JObj [(''seq'', JStr ''1''), (''res'', JNum 42)]) one_call_then)
     = Inr ((receive_reply ''1'' (JObj [(''seq'', JStr ''1''), (''res'', JNum 42)]) one_call_then)
              \<lparr> console := [Warn ''Got reply to unknown seq''] \<rparr>)
   \<and> pendingRPCReplies
       (receive_reply ''9007199254740992''
          (JObj [(''seq'', JStr ''9007199254740992''), (''res'', JNum 42)]) saturated_call)
       ''9007199254740992''
     = Some 9007199254740992\<close>
proof -
  let ?m = "JObj [(''seq'', JStr ''1''), (''res'', JNum 42)]"
  let ?M = "JObj [(''seq'', JStr ''9007199254740992''), (''res'', JNum 42)]"
  have m: "truthy (own_prop ?m ''seq'')" "to_key (own_prop ?m ''seq'') = Inr ''1''"
    and M: "truthy (own_prop ?M ''seq'')"
      "to_key (own_prop ?M ''seq'') = Inr ''9007199254740992''"
      "\<not> truthy (own_prop ?M ''err'')"
    by (simp_all add: truthy_def to_key_def)
  have s2: "string_of_nat (Suc (Suc 0)) = ''2''"
    using string_of_nat_small(4) unfolding numeral_2_eq_2 .
  have l: "lastMessageId (receive_reply ''1'' ?m one_call_then) = 2"
    "pendingRPCReplies (receive_reply ''1'' ?m one_call_then) = [''2'' \<mapsto> 1]"
    "console (receive_reply ''1'' ?m one_call_then) = []"
    by (simp_all add: receive_reply_def one_call_then_fields truthy_def of_prop_def Let_def
        LazyPromise_resolveOk_def run_script_def callOnRemote_def js_increment_def
        RPCMultiplexer_send_def string_of_nat_small s2 one_call_then_def one_call_def
        LazyPromise_then_def new_RPCManager_def)
  have b: "lastMessageId (receive_reply ''1'' ?m one_call_then) < 9007199254740992"
    by (simp add: l)
  note A = C10_entry_deleted_before_resolution[OF parse_reply_42 m one_call_then_fields(1)]
  from A[THEN conjunct2, THEN conjunct2, THEN conjunct1, rule_format,
      OF conjI[OF ids_inv_one_call_then b], THEN conjunct2, rule_format,
      OF conjI[OF parse_reply_42 conjI[OF m]]]
  have 1: \<open>RPCManager_receiveOneMessage (Some ''{"seq":"1","res":42}'')
       (receive_reply ''1'' ?m one_call_then)
     = Inr ((receive_reply ''1'' ?m one_call_then)
              \<lparr> console := [Warn ''Got reply to unknown seq''] \<rparr>)\<close>
    by (simp add: l)
  note B = C10_entry_deleted_before_resolution[OF parse_reply_two_53 M(1,2) saturated_fields(2),
      of "''svc.foo''" "''again''" "[]" "[]"]
  from B[THEN conjunct2, THEN conjunct2, THEN conjunct2] M(3)
  have 2: "pendingRPCReplies (receive_reply ''9007199254740992'' ?M saturated_call)
             ''9007199254740992'' = Some 9007199254740992"
    by (simp add: saturated_fields string_of_nat_two_53)
  from l 1 2 show ?thesis by simp
qed

text \<open>
  A second reply is not always unknown. A manager has made \<open>2^53\<close> calls, and the
  result of the last one, whose id is \<open>9007199254740992\<close>, has a continuation that
  calls \<^verbatim>\<open>callOnRemote\<close>. The reply for that id resolves the result; the continuation's
  call is given the same id, and its entry stands after the dispatch. A second reply
  with the same \<^verbatim>\<open>seq\<close> finds that entry: no warning is logged, and the reply resolves
  the result of the new call.
\<close>

theorem C10_reused_id_counterexample:
  \<open>map_sum id (\<lambda>t. pendingRPCReplies t ''9007199254740992'')
     (RPCManager_receiveOneMessage (Some ''{"seq":"9007199254740992","res":42}'') saturated_call)
   = Inr (Some 9007199254740992)
   \<and> map_sum id (\<lambda>t. (console t, resolution (lazyPromises t ! 9007199254740992),
                       pendingRPCReplies t ''9007199254740992''))
       (case RPCManager_receiveOneMessage (Some ''{"seq":"9007199254740992","res":42}'')
               saturated_call of
          Inl e \<Rightarrow> Inl e
        | Inr t \<Rightarrow> RPCManager_receiveOneMessage (Some ''{"seq":"9007199254740992","res":42}'') t)
     = Inr ([], ResolvedOk (VJson (JNum 42)), None)\<close>
  by (simp add: RPCManager_receiveOneMessage_def parse_reply_two_53 classify_def truthy_def
      to_key_def receive_reply_def saturated_fields of_prop_def LazyPromise_resolveOk_def
      Let_def run_script_def callOnRemote_def js_increment_def RPCMultiplexer_send_def
      string_of_nat_two_53 nth_append)

end
